theory Spec2Isabelle
  imports Complex_Main "HOL-Library.AList"
begin

section \<open>JavaScript values that come out of JSON.parse\<close>

text \<open>
  The scanner (check-malicious.js) works on values produced by \<open>JSON.parse\<close>: the content
  of package-lock.json and the reply of the OSV service. No schema is checked by the code,
  so the model keeps the whole JSON value and writes out what each JavaScript operation of
  the source does on every kind of value, the \<open>TypeError\<close> included.

  \<^item> \<open>JObj\<close> lists the own properties in the order \<open>Object.entries\<close> enumerates them,
    each key once.
  \<^item> \<open>JNum\<close> holds the value of a number; the source only tests numbers against zero.
  \<^item> \<open>undefined\<close> is not a JSON value: the result of a property read is a \<open>json option\<close>,
    \<open>None\<close> standing for \<open>undefined\<close>.
  \<^item> strings are \<open>char list\<close>s, one \<open>char\<close> for each UTF-16 code unit of the JavaScript
    string. A \<open>char\<close> holds the code units 0 to 255, so the strings of the model are those
    of ISO 8859-1 (ASCII among them); a string with a code unit above 255 has no
    counterpart in the model.
\<close>

datatype json =
    JNull
  | JBool bool
  | JNum rat
  | JStr string
  | JArr "json list"
  | JObj "(string \<times> json) list"

datatype error = TypeError | SyntaxError | FsError | NetworkError

definition bindE :: "error + 'a \<Rightarrow> ('a \<Rightarrow> error + 'b) \<Rightarrow> error + 'b" where
  "bindE m f = (case m of Inl e \<Rightarrow> Inl e | Inr x \<Rightarrow> f x)"

text \<open>JavaScript truthiness (\<open>ToBoolean\<close>) of a value that is \<open>undefined\<close> or JSON.\<close>

fun truthy :: "json option \<Rightarrow> bool" where
  "truthy None = False"
| "truthy (Some JNull) = False"
| "truthy (Some (JBool b)) = b"
| "truthy (Some (JNum r)) = (r \<noteq> 0)"
| "truthy (Some (JStr s)) = (s \<noteq> [])"
| "truthy (Some (JArr xs)) = True"
| "truthy (Some (JObj kvs)) = True"

text \<open>
  The property read \<open>x.k\<close> for the property names the source uses on parsed data
  (\<open>dependencies\<close>, \<open>packages\<close>, \<open>version\<close>, \<open>results\<close>, \<open>vulns\<close>, \<open>id\<close>, \<open>details\<close>,
  \<open>summary\<close>): on \<open>null\<close> and \<open>undefined\<close> it throws a TypeError, on an object it is the own
  property or \<open>undefined\<close>, and on a number, boolean, string or array it is \<open>undefined\<close>
  (none of these names is defined on their prototypes). \<open>length\<close> is read by
  \<open>length_gt0\<close> below.
\<close>

fun get :: "json option \<Rightarrow> string \<Rightarrow> error + json option" where
  "get None k = Inl TypeError"
| "get (Some JNull) k = Inl TypeError"
| "get (Some (JObj kvs)) k = Inr (map_of kvs k)"
| "get (Some v) k = Inr None"

section \<open>Strings\<close>

definition startsWith :: "string \<Rightarrow> string \<Rightarrow> bool" where
  "startsWith s p = (take (length p) s = p)"

definition endsWith :: "string \<Rightarrow> string \<Rightarrow> bool" where
  "endsWith s p = (length p \<le> length s \<and> drop (length s - length p) s = p)"

fun str_includes :: "string \<Rightarrow> string \<Rightarrow> bool" where
  "str_includes [] p = (p = [])"
| "str_includes (c # cs) p = (startsWith (c # cs) p \<or> str_includes cs p)"

text \<open>
  \<open>toLowerCase\<close>, on the code units a \<open>char\<close> holds: the letters A to Z and the capital
  letters of ISO 8859-1 (U+00C0 to U+00DE, but for the multiplication sign U+00D7) are
  lowered, every other character is left as it is.
\<close>

definition letters :: "(char \<times> char) list" where
  "letters =
     zip ''ABCDEFGHIJKLMNOPQRSTUVWXYZ'' ''abcdefghijklmnopqrstuvwxyz''
     @ zip [
        CHR 0xC0, CHR 0xC1, CHR 0xC2, CHR 0xC3, CHR 0xC4, CHR 0xC5, CHR 0xC6, CHR 0xC7,
        CHR 0xC8, CHR 0xC9, CHR 0xCA, CHR 0xCB, CHR 0xCC, CHR 0xCD, CHR 0xCE, CHR 0xCF,
        CHR 0xD0, CHR 0xD1, CHR 0xD2, CHR 0xD3, CHR 0xD4, CHR 0xD5, CHR 0xD6, CHR 0xD8,
        CHR 0xD9, CHR 0xDA, CHR 0xDB, CHR 0xDC, CHR 0xDD, CHR 0xDE]
       [
        CHR 0xE0, CHR 0xE1, CHR 0xE2, CHR 0xE3, CHR 0xE4, CHR 0xE5, CHR 0xE6, CHR 0xE7,
        CHR 0xE8, CHR 0xE9, CHR 0xEA, CHR 0xEB, CHR 0xEC, CHR 0xED, CHR 0xEE, CHR 0xEF,
        CHR 0xF0, CHR 0xF1, CHR 0xF2, CHR 0xF3, CHR 0xF4, CHR 0xF5, CHR 0xF6, CHR 0xF8,
        CHR 0xF9, CHR 0xFA, CHR 0xFB, CHR 0xFC, CHR 0xFD, CHR 0xFE]"

definition lower_char :: "char \<Rightarrow> char" where
  "lower_char c = (case map_of letters c of None \<Rightarrow> c | Some d \<Rightarrow> d)"

definition toLowerCase :: "string \<Rightarrow> string" where
  "toLowerCase s = map lower_char s"

section \<open>Classification of an advisory (main, lines 266 to 268)\<close>

text \<open>
  \<open>x && x.toLowerCase().includes('malicious')\<close>, as its truthiness. A truthy \<open>x\<close> that is
  not a string has no callable \<open>toLowerCase\<close>: the call throws a TypeError.
\<close>

definition mentions_malicious :: "json option \<Rightarrow> error + bool" where
  "mentions_malicious x =
     (if truthy x then
        (case x of
           Some (JStr s) \<Rightarrow> Inr (str_includes (toLowerCase s) ''malicious'')
         | _ \<Rightarrow> Inl TypeError)
      else Inr False)"

text \<open>
  \<open>vuln.id.startsWith('MAL-') || (vuln.details && ...) || (vuln.summary && ...)\<close>, as its
  truthiness. \<open>||\<close> evaluates left to right and stops at the first truthy operand.
  \<open>vuln.id.startsWith\<close> is callable only when \<open>vuln.id\<close> is a string.
\<close>

definition isMalicious :: "json \<Rightarrow> error + bool" where
  "isMalicious vuln =
     bindE (get (Some vuln) ''id'') (\<lambda>idv.
       case idv of
         Some (JStr i) \<Rightarrow>
           if startsWith i ''MAL-'' then Inr True
           else
             bindE (get (Some vuln) ''details'') (\<lambda>d.
             bindE (mentions_malicious d) (\<lambda>b.
               if b then Inr True
               else bindE (get (Some vuln) ''summary'') mentions_malicious))
       | _ \<Rightarrow> Inl TypeError)"

subsection \<open>The classification rule in the words of the specification\<close>

text \<open>
  Two characters are the same letter up to case when they are equal or one is the capital
  of the other. A string contains a word case-insensitively when some stretch of it
  agrees with the word letter by letter up to case.
\<close>

definition same_letter :: "char \<Rightarrow> char \<Rightarrow> bool" where
  "same_letter a b = (a = b \<or> (a, b) \<in> set letters \<or> (b, a) \<in> set letters)"

definition contains_ci :: "string \<Rightarrow> string \<Rightarrow> bool" where
  "contains_ci s w = (\<exists>pre mid post. s = pre @ mid @ post \<and> list_all2 same_letter mid w)"

text \<open>A field that is absent, or falsy, or a string: the free-text fields of the data model.\<close>

definition free_text :: "json option \<Rightarrow> bool" where
  "free_text x = (\<not> truthy x \<or> (\<exists>s. x = Some (JStr s)))"

definition field_mentions :: "json option \<Rightarrow> bool" where
  "field_mentions x = (\<exists>s. x = Some (JStr s) \<and> contains_ci s ''malicious'')"

section \<open>The file system\<close>

text \<open>
  The tree under the scanned root (\<open>process.cwd()\<close>). A directory lists its entries in
  the order \<open>readdirSync\<close> returns them, each name once. \<open>NoAccess\<close> is a directory that
  cannot be listed: \<open>readdirSync\<close> throws on it. A path is the list of names from the root
  down, so \<open>path.join dir name\<close> appends a name and \<open>path.dirname\<close> drops the last one.
\<close>

datatype fsnode = File string | Dir "(string \<times> fsnode) list" | NoAccess

type_synonym path = "string list"

definition join :: "path \<Rightarrow> string \<Rightarrow> path" where
  "join dir name = dir @ [name]"

definition dirname :: "path \<Rightarrow> path" where
  "dirname p = butlast p"

fun isDirectory :: "fsnode \<Rightarrow> bool" where
  "isDirectory (File c) = False"
| "isDirectory (Dir es) = True"
| "isDirectory NoAccess = True"

fun lookup :: "fsnode \<Rightarrow> path \<Rightarrow> fsnode option" where
  "lookup n [] = Some n"
| "lookup (Dir es) (c # p) = (case map_of es c of None \<Rightarrow> None | Some n \<Rightarrow> lookup n p)"
| "lookup (File t) (c # p) = None"
| "lookup NoAccess (c # p) = None"

definition existsSync :: "fsnode \<Rightarrow> path \<Rightarrow> bool" where
  "existsSync t p = (lookup t p \<noteq> None)"

definition readFileSync :: "fsnode \<Rightarrow> path \<Rightarrow> error + string" where
  "readFileSync t p = (case lookup t p of Some (File c) \<Rightarrow> Inr c | _ \<Rightarrow> Inl FsError)"

text \<open>
  \<open>unlinkSync\<close> inside \<open>try { } catch (e) {}\<close> (main, lines 298 to 301): a file is removed
  from its directory; on anything else the call throws, the exception is dropped and the
  tree is left as it was.
\<close>

fun remove_file :: "fsnode \<Rightarrow> path \<Rightarrow> fsnode" where
  "remove_file (Dir es) [c] =
     (case map_of es c of
        Some (File t) \<Rightarrow> Dir (filter (\<lambda>e. fst e \<noteq> c) es)
      | _ \<Rightarrow> Dir es)"
| "remove_file (Dir es) (c # d # p) =
     (case map_of es c of
        Some n \<Rightarrow> Dir (AList.update c (remove_file n (d # p)) es)
      | None \<Rightarrow> Dir es)"
| "remove_file n p = n"

section \<open>Manifest discovery (findPackageJsonFiles, lines 11 to 29)\<close>

text \<open>
  The recursion follows the tree: the call on \<open>fullPath\<close> reads the directory that the
  entry stands for. \<open>files\<close> is the array that every call pushes to and returns.
  \<open>readdirSync\<close> throws on what is not a readable directory, and nothing catches it.
\<close>

fun findPackageJsonFiles :: "path \<Rightarrow> fsnode \<Rightarrow> path list \<Rightarrow> error + path list"
  and find_entries :: "path \<Rightarrow> (string \<times> fsnode) list \<Rightarrow> path list \<Rightarrow> error + path list"
where
  "findPackageJsonFiles dir (Dir es) files = find_entries dir es files"
| "findPackageJsonFiles dir (File c) files = Inl FsError"
| "findPackageJsonFiles dir NoAccess files = Inl FsError"
| "find_entries dir [] files = Inr files"
| "find_entries dir ((name, node) # rest) files =
     (if name = ''node_modules'' \<or> startsWith name ''.'' then find_entries dir rest files
      else if isDirectory node then
        (case findPackageJsonFiles (join dir name) node files of
           Inl e \<Rightarrow> Inl e
         | Inr files' \<Rightarrow> find_entries dir rest files')
      else if name = ''package.json'' then find_entries dir rest (files @ [join dir name])
      else find_entries dir rest files)"

subsection \<open>Discovery in the words of the specification\<close>

text \<open>
  Every entry that is not a directory, depth first in directory-entry order, with nothing
  left out; and the paths among them that the specification asks for: named
  \<open>package.json\<close>, with no directory on the way down from the root that is named
  \<open>node_modules\<close> or whose name begins with a dot.
\<close>

fun all_files :: "path \<Rightarrow> fsnode \<Rightarrow> path list"
  and all_files_entries :: "path \<Rightarrow> (string \<times> fsnode) list \<Rightarrow> path list"
where
  "all_files dir (Dir es) = all_files_entries dir es"
| "all_files dir (File c) = []"
| "all_files dir NoAccess = []"
| "all_files_entries dir [] = []"
| "all_files_entries dir ((name, node) # rest) =
     (if isDirectory node then all_files (dir @ [name]) node else [dir @ [name]])
     @ all_files_entries dir rest"

definition excluded_dir :: "string \<Rightarrow> bool" where
  "excluded_dir d = (d = ''node_modules'' \<or> (\<exists>r. d = CHR ''.'' # r))"

definition is_manifest :: "path \<Rightarrow> path \<Rightarrow> bool" where
  "is_manifest base p =
     (p \<noteq> [] \<and> last p = ''package.json'' \<and>
      (\<forall>d \<in> set (butlast (drop (length base) p)). \<not> excluded_dir d))"

fun readable :: "fsnode \<Rightarrow> bool"
  and readable_entries :: "(string \<times> fsnode) list \<Rightarrow> bool"
where
  "readable (Dir es) = readable_entries es"
| "readable (File c) = True"
| "readable NoAccess = False"
| "readable_entries [] = True"
| "readable_entries ((name, node) # rest) = (readable node \<and> readable_entries rest)"

section \<open>The collaborators outside the program\<close>

text \<open>
  What the program calls and does not contain is a parameter of the model:
  \<^item> \<open>JSON_parse\<close>: \<open>JSON.parse\<close>, \<open>None\<close> when it throws a SyntaxError;
  \<^item> \<open>npm_install\<close>, \<open>yarn_install\<close>: \<open>execSync\<close> of the package manager in a directory,
    which may change the tree in any way and returns normally or throws;
  \<^item> \<open>osv_respond\<close>: the HTTPS request of one batch, given the batches posted before it:
    the request fails, or the reply arrives with some body;
  \<^item> \<open>js_gt0\<close>: the comparison \<open>v > 0\<close> for a \<open>v\<close> that is a string, an array or an object
    (JavaScript converts it to a number first, which the model does not spell out);
    \<open>None\<close> when the conversion throws a TypeError.
\<close>

datatype exit_status = Returned | Threw

datatype query = Query (q_name: string) (q_ecosystem: string) (q_version: json)

datatype reply = NetFail | Body string

record env =
  JSON_parse :: "string \<Rightarrow> json option"
  npm_install :: "path \<Rightarrow> fsnode \<Rightarrow> exit_status \<times> fsnode"
  yarn_install :: "path \<Rightarrow> fsnode \<Rightarrow> exit_status \<times> fsnode"
  osv_respond :: "query list list \<Rightarrow> query list \<Rightarrow> reply"
  js_gt0 :: "json \<Rightarrow> bool option"

section \<open>The state of a run\<close>

text \<open>
  The objects pushed to \<open>vulnerabilities\<close> and \<open>allFindings\<close>, with the keys \<open>file\<close>,
  \<open>package\<close>, \<open>version\<close>, \<open>id\<close> and \<open>summary\<close> of the source.
\<close>

record finding =
  f_file :: path
  f_package :: "string option"
  f_version :: "json option"
  f_id :: "json option"
  f_summary :: json

text \<open>
  \<open>spawned\<close> and \<open>requests\<close> are not variables of the program: they log every
  package-manager subprocess and every batch posted, in order.
\<close>

record state =
  disk :: fsnode
  spawned :: "(string \<times> path) list"
  requests :: "query list list"
  hasVulnerabilities :: bool
  allFindings :: "finding list"
  tempLockFiles :: "path list"

section \<open>The lock resolver (generateLockFile, lines 31 to 73; main, lines 217 to 226)\<close>

definition generateLockFile :: "env \<Rightarrow> path \<Rightarrow> state \<Rightarrow> path option \<times> state" where
  "generateLockFile e packageJsonPath st =
     (let dir = dirname packageJsonPath;
          packageLockPath = join dir ''package-lock.json'';
          yarnLockPath = join dir ''yarn.lock''
      in
        if existsSync (disk st) packageLockPath \<or> existsSync (disk st) yarnLockPath then
          (Some (if existsSync (disk st) packageLockPath then packageLockPath else yarnLockPath), st)
        else
          (case npm_install e dir (disk st) of
             (Returned, fs1) \<Rightarrow>
               (let st1 = st\<lparr>disk := fs1, spawned := spawned st @ [(''npm'', dir)]\<rparr>
                in if existsSync fs1 packageLockPath then (Some packageLockPath, st1)
                   else (None, st1))
           | (Threw, fs1) \<Rightarrow>
               (case yarn_install e dir fs1 of
                  (Returned, fs2) \<Rightarrow>
                    (let st2 = st\<lparr>disk := fs2,
                                   spawned := spawned st @ [(''npm'', dir), (''yarn'', dir)]\<rparr>
                     in if existsSync fs2 yarnLockPath then (Some yarnLockPath, st2)
                        else (None, st2))
                | (Threw, fs2) \<Rightarrow>
                    (None, st\<lparr>disk := fs2,
                               spawned := spawned st @ [(''npm'', dir), (''yarn'', dir)]\<rparr>))))"

text \<open>
  \<open>lockFile.replace(/\.(json|lock)$/, '.json')\<close>. The pattern is anchored at the end and
  matches inside the last name of the path, which is all it is applied to here.
\<close>

definition replace_ext :: "string \<Rightarrow> string" where
  "replace_ext s =
     (if endsWith s ''.json'' \<or> endsWith s ''.lock''
      then take (length s - 5) s @ ''.json'' else s)"

definition replace_lock_ext :: "path \<Rightarrow> path" where
  "replace_lock_ext p = (if p = [] then [] else butlast p @ [replace_ext (last p)])"

definition resolve_lock :: "env \<Rightarrow> path \<Rightarrow> state \<Rightarrow> path option \<times> state" where
  "resolve_lock e packageJsonPath st =
     (let dir = dirname packageJsonPath;
          lockFile = join dir ''package-lock.json''
      in
        if existsSync (disk st) lockFile then (Some lockFile, st)
        else
          (let lockFile = join dir ''yarn.lock''
           in
             if existsSync (disk st) lockFile then (Some lockFile, st)
             else
               (case generateLockFile e packageJsonPath st of
                  (Some lockFile, st1) \<Rightarrow>
                    if \<not> existsSync (disk st1) (replace_lock_ext lockFile)
                    then (Some lockFile, st1\<lparr>tempLockFiles := tempLockFiles st1 @ [lockFile]\<rparr>)
                    else (Some lockFile, st1)
                | (None, st1) \<Rightarrow> (None, st1))))"

text \<open>The lock file that lies beside a manifest, the npm one first.\<close>

definition lock_beside :: "fsnode \<Rightarrow> path \<Rightarrow> path" where
  "lock_beside t packageJsonPath =
     (if existsSync t (join (dirname packageJsonPath) ''package-lock.json'')
      then join (dirname packageJsonPath) ''package-lock.json''
      else join (dirname packageJsonPath) ''yarn.lock'')"

text \<open>Running a resolver again and again on one state, collecting what it returns.\<close>

fun run_times :: "nat \<Rightarrow> (state \<Rightarrow> path option \<times> state) \<Rightarrow> state \<Rightarrow> path option list \<times> state" where
  "run_times 0 resolver st = ([], st)"
| "run_times (Suc n) resolver st =
     (case resolver st of
        (r, st1) \<Rightarrow> (case run_times n resolver st1 of (rs, st2) \<Rightarrow> (r # rs, st2)))"

section \<open>The lock parser for package-lock.json (parsePackageLock, lines 75 to 105)\<close>

text \<open>
  \<open>deps\<close> is the \<open>Map\<close> from name to version, as the list of its entries in insertion
  order: \<open>deps.set\<close> replaces the value of a name that is there and appends a new name,
  which is \<open>AList.update\<close>. A version is whatever JSON value the lock file holds.
\<close>

type_synonym deps = "(string \<times> json) list"

text \<open>
  \<open>Object.entries\<close> of a truthy value: the properties of an object, the indexed elements
  of an array, the indexed characters of a string, nothing for a number or a boolean.
\<close>

fun digit_char :: "nat \<Rightarrow> char" where
  "digit_char n = ''0123456789'' ! (n mod 10)"

fun string_of_nat :: "nat \<Rightarrow> string" where
  "string_of_nat n = (if n < 10 then [digit_char n] else string_of_nat (n div 10) @ [digit_char n])"

definition index_keys :: "nat \<Rightarrow> string list" where
  "index_keys n = map string_of_nat [0..<n]"

fun entries :: "json \<Rightarrow> (string \<times> json) list" where
  "entries (JObj kvs) = kvs"
| "entries (JArr xs) = zip (index_keys (length xs)) xs"
| "entries (JStr s) = zip (index_keys (length s)) (map (\<lambda>c. JStr [c]) s)"
| "entries v = []"

text \<open>A measure of JSON values, for the termination of the walk over nested dependencies.\<close>

fun weight :: "json \<Rightarrow> nat"
  and weight_list :: "json list \<Rightarrow> nat"
  and weight_entries :: "(string \<times> json) list \<Rightarrow> nat"
where
  "weight JNull = 1"
| "weight (JBool b) = 1"
| "weight (JNum r) = 1"
| "weight (JStr s) = max 1 (length s)"
| "weight (JArr xs) = 1 + weight_list xs"
| "weight (JObj kvs) = 1 + weight_entries kvs"
| "weight_list [] = 0"
| "weight_list (x # xs) = weight x + weight_list xs"
| "weight_entries [] = 0"
| "weight_entries ((k, v) # kvs) = weight v + weight_entries kvs"

text \<open>\<open>info.version || 'unknown'\<close>.\<close>

definition or_unknown :: "json option \<Rightarrow> json" where
  "or_unknown v = (if truthy v then the v else JStr ''unknown'')"

lemma weight_pos: "0 < weight v"
  by (cases v) auto

lemma weight_entries_zip: "length ks = length xs \<Longrightarrow> weight_entries (zip ks xs) = weight_list xs"
  by (induction ks xs rule: list_induct2) auto

lemma weight_list_chars: "weight_list (map (\<lambda>c. JStr [c]) s) = length s"
  by (induction s) auto

lemma weight_entries_le: "weight_entries (entries v) < Suc (weight v)"
  by (cases v) (auto simp: weight_entries_zip index_keys_def weight_list_chars)

lemma weight_map_of: "map_of kvs k = Some v \<Longrightarrow> weight v \<le> weight_entries kvs"
  by (induction kvs) (auto split: if_splits)

lemma weight_nested:
  assumes "get (Some info) k = Inr d" "truthy d"
  shows "weight_entries (entries (the d)) < weight info"
proof -
  from assms obtain kvs v where i: "info = JObj kvs" and d: "d = Some v" and m: "map_of kvs k = Some v"
    by (cases info; cases d) auto
  have "weight_entries (entries v) \<le> weight v"
    using weight_entries_le [of v] by simp
  also have "\<dots> \<le> weight_entries kvs" using m by (rule weight_map_of)
  finally show ?thesis using i d by simp
qed

text \<open>
  \<open>extractDeps\<close> (lines 81 to 88), the walk over the legacy \<open>dependencies\<close> tree. \<open>deps\<close>
  is the map of the enclosing function, which every call writes to.
\<close>

function extractDeps :: "(string \<times> json) list \<Rightarrow> deps \<Rightarrow> error + deps" where
  "extractDeps [] deps = Inr deps"
| "extractDeps ((name, info) # rest) deps =
     (case get (Some info) ''version'' of
        Inl e \<Rightarrow> Inl e
      | Inr v \<Rightarrow>
          (let deps1 = AList.update name (or_unknown v) deps in
           case get (Some info) ''dependencies'' of
             Inl e \<Rightarrow> Inl e
           | Inr d \<Rightarrow>
               if truthy d then
                 (case extractDeps (entries (the d)) deps1 of
                    Inl e \<Rightarrow> Inl e
                  | Inr deps2 \<Rightarrow> extractDeps rest deps2)
               else extractDeps rest deps1))"
  by pat_completeness auto

termination extractDeps
proof (relation "measure (\<lambda>(es, deps). weight_entries es)", goal_cases)
  case 1
  then show ?case by simp
next
  case (2 name info rest deps v deps1 d)
  then show ?case using weight_nested [of info "''dependencies''" d] by simp
next
  case (3 name info rest deps v deps1 d deps2)
  then show ?case using weight_pos [of info] by simp
next
  case (4 name info rest deps v deps1 d)
  then show ?case using weight_pos [of info] by simp
qed

text \<open>\<open>key.replace(/^node_modules\//, '')\<close>.\<close>

definition strip_node_modules :: "string \<Rightarrow> string" where
  "strip_node_modules key =
     (if startsWith key ''node_modules/'' then drop (length ''node_modules/'') key else key)"

text \<open>The loop over \<open>lockData.packages\<close> (lines 94 to 101).\<close>

fun packages_loop :: "(string \<times> json) list \<Rightarrow> deps \<Rightarrow> error + deps" where
  "packages_loop [] deps = Inr deps"
| "packages_loop ((key, info) # rest) deps =
     (if key \<noteq> [] then
        (let name = strip_node_modules key in
         if name \<noteq> [] \<and> \<not> str_includes name ''node_modules'' then
           (case get (Some info) ''version'' of
              Inl e \<Rightarrow> Inl e
            | Inr v \<Rightarrow> packages_loop rest (AList.update name (or_unknown v) deps))
         else packages_loop rest deps)
      else packages_loop rest deps)"

text \<open>The body of \<open>parsePackageLock\<close> after \<open>JSON.parse\<close>, on the parsed \<open>lockData\<close>.\<close>

definition parse_lockData :: "json \<Rightarrow> error + deps" where
  "parse_lockData lockData =
     bindE (get (Some lockData) ''dependencies'') (\<lambda>d.
     bindE (if truthy d then extractDeps (entries (the d)) [] else Inr []) (\<lambda>deps1.
     bindE (get (Some lockData) ''packages'') (\<lambda>p.
       if truthy p then packages_loop (entries (the p)) deps1 else Inr deps1)))"

definition parsePackageLock :: "env \<Rightarrow> fsnode \<Rightarrow> path \<Rightarrow> error + deps" where
  "parsePackageLock e t lockPath =
     bindE (readFileSync t lockPath) (\<lambda>content.
       case JSON_parse e content of
         None \<Rightarrow> Inl SyntaxError
       | Some lockData \<Rightarrow> parse_lockData lockData)"

subsection \<open>The nodes of a lock file in the words of the specification\<close>

text \<open>The version a node carries, \<open>undefined\<close> when it has none.\<close>

definition version_of :: "json \<Rightarrow> json option" where
  "version_of info = (case get (Some info) ''version'' of Inr v \<Rightarrow> v | Inl e \<Rightarrow> None)"

text \<open>
  Every node of the legacy tree (an entry of a \<open>dependencies\<close> object, at any depth), a
  node before the nodes nested in it, in entry order.
\<close>

function legacy_nodes :: "(string \<times> json) list \<Rightarrow> (string \<times> json) list" where
  "legacy_nodes [] = []"
| "legacy_nodes ((name, info) # rest) =
     (name, info) #
     (case get (Some info) ''dependencies'' of
        Inl e \<Rightarrow> []
      | Inr d \<Rightarrow> if truthy d then legacy_nodes (entries (the d)) else [])
     @ legacy_nodes rest"
  by pat_completeness auto

termination legacy_nodes
proof (relation "measure weight_entries", goal_cases)
  case 1
  then show ?case by simp
next
  case (2 name info rest d)
  then show ?case using weight_nested [of info "''dependencies''" d] by simp
next
  case (3 name info rest)
  then show ?case using weight_pos [of info] by simp
qed

text \<open>
  The entries of the flat \<open>packages\<close> object that stand for a package: the key is not
  empty, and what is left of it after the leading \<open>node_modules/\<close> is not empty and does
  not mention \<open>node_modules\<close>. The node is named by what is left of the key.
\<close>

definition names_package :: "string \<Rightarrow> bool" where
  "names_package key =
     (key \<noteq> [] \<and> strip_node_modules key \<noteq> []
      \<and> \<not> str_includes (strip_node_modules key) ''node_modules'')"

definition v3_nodes :: "(string \<times> json) list \<Rightarrow> (string \<times> json) list" where
  "v3_nodes es =
     map (\<lambda>kv. (strip_node_modules (fst kv), snd kv)) (filter (\<lambda>kv. names_package (fst kv)) es)"

text \<open>All nodes of a lock file: the legacy tree first, then the flat map.\<close>

definition lock_nodes :: "json \<Rightarrow> (string \<times> json) list" where
  "lock_nodes lockData =
     (case get (Some lockData) ''dependencies'' of
        Inl e \<Rightarrow> []
      | Inr d \<Rightarrow> if truthy d then legacy_nodes (entries (the d)) else [])
     @ (case get (Some lockData) ''packages'' of
          Inl e \<Rightarrow> []
        | Inr p \<Rightarrow> if truthy p then v3_nodes (entries (the p)) else [])"

text \<open>Recording one node: \<open>deps.set(name, info.version || 'unknown')\<close>.\<close>

definition record_node :: "string \<times> json \<Rightarrow> deps \<Rightarrow> deps" where
  "record_node node deps = AList.update (fst node) (or_unknown (version_of (snd node))) deps"

section \<open>The lock parser for yarn.lock (parseYarnLock, lines 107 to 132)\<close>

text \<open>\<open>content.split('\n')\<close>.\<close>

fun split_lines :: "string \<Rightarrow> string list" where
  "split_lines [] = [[]]"
| "split_lines (c # cs) =
     (if c = CHR 0x0A then [] # split_lines cs
      else (case split_lines cs of l # ls \<Rightarrow> (c # l) # ls | [] \<Rightarrow> [[c]]))"

text \<open>
  The class \<open>\s\<close> of a JavaScript regular expression, on the code units a \<open>char\<close> holds:
  tab, line feed, vertical tab, form feed, carriage return, space and the no-break space
  U+00A0. The other members of the class (U+1680, U+2000 to U+200A, U+2028, U+2029,
  U+202F, U+205F, U+3000 and U+FEFF) are code units above 255.
\<close>

definition is_space :: "char \<Rightarrow> bool" where
  "is_space c =
     (c \<in> set [CHR 0x09, CHR 0x0A, CHR 0x0B, CHR 0x0C, CHR 0x0D, CHR '' '', CHR 0xA0])"

text \<open>
  \<open>[^"]*"?:$\<close> on what follows the \<open>@\<close> of a header: characters other than the double
  quote, then at most one double quote, then the colon that ends the line.
\<close>

definition range_tail :: "string \<Rightarrow> bool" where
  "range_tail t =
     (t \<noteq> [] \<and> last t = CHR '':'' \<and>
      (let b = butlast t in
         CHR 0x22 \<notin> set b \<or> (b \<noteq> [] \<and> last b = CHR 0x22 \<and> CHR 0x22 \<notin> set (butlast b))))"

text \<open>
  \<open>(@?[^@\s]+)@[^"]*"?:$\<close> from a given start: the group is an optional \<open>@\<close> and the
  longest stretch without \<open>@\<close> and white space, which must be followed by \<open>@\<close>.
\<close>

definition header_from :: "string \<Rightarrow> string option" where
  "header_from s =
     (let scope = (if s \<noteq> [] \<and> hd s = CHR ''@'' then ''@'' else []);
          s1 = drop (length scope) s;
          stem = takeWhile (\<lambda>c. c \<noteq> CHR ''@'' \<and> \<not> is_space c) s1;
          s2 = dropWhile (\<lambda>c. c \<noteq> CHR ''@'' \<and> \<not> is_space c) s1
      in if stem \<noteq> [] \<and> s2 \<noteq> [] \<and> hd s2 = CHR ''@'' \<and> range_tail (tl s2)
         then Some (scope @ stem) else None)"

text \<open>
  \<open>line.match(/^"?(@?[^@\s]+)@[^"]*"?:$/)\<close>, as the captured group: the leading quote is
  first taken and, if the rest then fails, left to the group.
\<close>

definition packageMatch :: "string \<Rightarrow> string option" where
  "packageMatch line =
     (if line \<noteq> [] \<and> hd line = CHR 0x22 then
        (case header_from (tl line) of Some n \<Rightarrow> Some n | None \<Rightarrow> header_from line)
      else header_from line)"

text \<open>\<open>version\s+"([^"]+)"\<close> at the start of \<open>s\<close>, and at its leftmost place in a line.\<close>

definition version_here :: "string \<Rightarrow> string option" where
  "version_here s =
     (if startsWith s ''version'' then
        (let r = drop (length ''version'') s;
             r1 = dropWhile is_space r
         in if takeWhile is_space r \<noteq> [] \<and> r1 \<noteq> [] \<and> hd r1 = CHR 0x22 then
              (let v = takeWhile (\<lambda>c. c \<noteq> CHR 0x22) (tl r1);
                   r2 = dropWhile (\<lambda>c. c \<noteq> CHR 0x22) (tl r1)
               in if v \<noteq> [] \<and> r2 \<noteq> [] then Some v else None)
            else None)
      else None)"

fun versionMatch :: "string \<Rightarrow> string option" where
  "versionMatch [] = None"
| "versionMatch (c # cs) =
     (case version_here (c # cs) of Some v \<Rightarrow> Some v | None \<Rightarrow> versionMatch cs)"

text \<open>The loop over the lines, with \<open>currentPackage\<close> (\<open>None\<close> for \<open>null\<close>) and \<open>deps\<close>.\<close>

fun yarn_lines :: "string list \<Rightarrow> string option \<Rightarrow> deps \<Rightarrow> deps" where
  "yarn_lines [] currentPackage deps = deps"
| "yarn_lines (line # rest) currentPackage deps =
     (case packageMatch line of
        Some name \<Rightarrow> yarn_lines rest (Some name) deps
      | None \<Rightarrow>
          (case currentPackage of
             Some pkg \<Rightarrow>
               if str_includes line ''version'' then
                 (case versionMatch line of
                    Some v \<Rightarrow> yarn_lines rest None (AList.update pkg (JStr v) deps)
                  | None \<Rightarrow> yarn_lines rest currentPackage deps)
               else yarn_lines rest currentPackage deps
           | None \<Rightarrow> yarn_lines rest currentPackage deps))"

definition parseYarnLock :: "fsnode \<Rightarrow> path \<Rightarrow> error + deps" where
  "parseYarnLock t lockPath =
     bindE (readFileSync t lockPath) (\<lambda>content. Inr (yarn_lines (split_lines content) None []))"

section \<open>The vulnerability matcher (queryOSV, lines 134 to 189)\<close>

definition batchSize :: nat where
  "batchSize = 1000"

text \<open>\<open>Array.from(packages).map(...)\<close>: one query for each entry of the map, in its order.\<close>

definition make_queries :: "deps \<Rightarrow> query list" where
  "make_queries packages = map (\<lambda>(name, version). Query name ''npm'' version) packages"

definition slice :: "'a list \<Rightarrow> nat \<Rightarrow> nat \<Rightarrow> 'a list" where
  "slice xs i j = take (j - i) (drop i xs)"

text \<open>
  The promise of one request (lines 152 to 177): rejected when the request emits an error
  and when \<open>JSON.parse\<close> of the body throws, resolved with the parsed body otherwise.
\<close>

definition post :: "env \<Rightarrow> query list list \<Rightarrow> query list \<Rightarrow> error + json" where
  "post e sent batch =
     (case osv_respond e sent batch of
        NetFail \<Rightarrow> Inl NetworkError
      | Body responseData \<Rightarrow>
          (case JSON_parse e responseData of
             None \<Rightarrow> Inl SyntaxError
           | Some parsed \<Rightarrow> Inr parsed))"

text \<open>
  Iteration (spread and \<open>for ... of\<close>) over a truthy value: the elements of an array, the
  characters of a string; a number, a boolean and an object are not iterable.
\<close>

fun iterate :: "json \<Rightarrow> error + json list" where
  "iterate (JArr xs) = Inr xs"
| "iterate (JStr s) = Inr (map (\<lambda>c. JStr [c]) s)"
| "iterate v = Inl TypeError"

text \<open>\<open>...(result.results || [])\<close>.\<close>

definition spread_results :: "json \<Rightarrow> error + json list" where
  "spread_results result =
     bindE (get (Some result) ''results'') (\<lambda>r. if truthy r then iterate (the r) else Inr [])"

text \<open>
  The loop of \<open>queryOSV\<close> from index \<open>i\<close>, with the results so far. An exception leaves
  the function with the request already sent.
\<close>

function queryOSV_loop ::
  "env \<Rightarrow> query list \<Rightarrow> nat \<Rightarrow> json list \<Rightarrow> state \<Rightarrow> (error + json list) \<times> state" where
  "queryOSV_loop e queries i results st =
     (if i < length queries then
        (let batch = slice queries i (i + batchSize);
             st1 = st\<lparr>requests := requests st @ [batch]\<rparr>
         in case post e (requests st) batch of
              Inl err \<Rightarrow> (Inl err, st1)
            | Inr result \<Rightarrow>
                (case spread_results result of
                   Inl err \<Rightarrow> (Inl err, st1)
                 | Inr rs \<Rightarrow> queryOSV_loop e queries (i + batchSize) (results @ rs) st1))
      else (Inr results, st))"
  by pat_completeness auto
termination queryOSV_loop
  by (relation "measure (\<lambda>(e, queries, i, results, st). length queries - i)")
     (auto simp: batchSize_def)

declare queryOSV_loop.simps [simp del]

definition queryOSV :: "env \<Rightarrow> deps \<Rightarrow> state \<Rightarrow> (error + json list) \<times> state" where
  "queryOSV e packages st = queryOSV_loop e (make_queries packages) 0 [] st"

section \<open>Processing the results (main, lines 258 to 281)\<close>

text \<open>
  \<open>v > 0\<close> for the value of a \<open>length\<close> property: \<open>undefined\<close> and \<open>null\<close> convert to NaN
  and 0, a boolean to 0 or 1; other values go through \<open>js_gt0\<close>.
\<close>

fun gt0 :: "env \<Rightarrow> json option \<Rightarrow> error + bool" where
  "gt0 e None = Inr False"
| "gt0 e (Some JNull) = Inr False"
| "gt0 e (Some (JBool b)) = Inr b"
| "gt0 e (Some (JNum r)) = Inr (0 < r)"
| "gt0 e (Some v) = (case js_gt0 e v of None \<Rightarrow> Inl TypeError | Some b \<Rightarrow> Inr b)"

text \<open>\<open>x.length > 0\<close> for a truthy \<open>x\<close>.\<close>

fun length_gt0 :: "env \<Rightarrow> json \<Rightarrow> error + bool" where
  "length_gt0 e (JArr xs) = Inr (xs \<noteq> [])"
| "length_gt0 e (JStr s) = Inr (s \<noteq> [])"
| "length_gt0 e (JObj kvs) = gt0 e (map_of kvs ''length'')"
| "length_gt0 e JNull = Inl TypeError"
| "length_gt0 e v = Inr False"

text \<open>\<open>packagesArray[i]\<close>: \<open>undefined\<close> beyond the end.\<close>

definition nth_opt :: "'a list \<Rightarrow> nat \<Rightarrow> 'a option" where
  "nth_opt xs i = (if i < length xs then Some (xs ! i) else None)"

text \<open>\<open>dependencies.get(packageName)\<close>.\<close>

definition deps_get :: "deps \<Rightarrow> string option \<Rightarrow> json option" where
  "deps_get dependencies packageName =
     (case packageName of None \<Rightarrow> None | Some n \<Rightarrow> map_of dependencies n)"

text \<open>\<open>vuln.summary || 'Malicious package detected'\<close>.\<close>

definition summary_or_default :: "json option \<Rightarrow> json" where
  "summary_or_default s = (if truthy s then the s else JStr ''Malicious package detected'')"

text \<open>
  The inner loop over the advisories of one result slot. The accumulator is the pair of
  \<open>vulnerabilities\<close> and \<open>hasVulnerabilities\<close>. The file of a finding is filled in when the
  finding is copied to \<open>allFindings\<close>.
\<close>

fun vulns_loop ::
  "deps \<Rightarrow> string option \<Rightarrow> json list \<Rightarrow> finding list \<times> bool \<Rightarrow> error + finding list \<times> bool" where
  "vulns_loop dependencies packageName [] acc = Inr acc"
| "vulns_loop dependencies packageName (vuln # rest) acc =
     (case isMalicious vuln of
        Inl err \<Rightarrow> Inl err
      | Inr b \<Rightarrow>
          if b then
            (case get (Some vuln) ''id'' of
               Inl err \<Rightarrow> Inl err
             | Inr i \<Rightarrow>
                 (case get (Some vuln) ''summary'' of
                    Inl err \<Rightarrow> Inl err
                  | Inr s \<Rightarrow>
                      vulns_loop dependencies packageName rest
                        (fst acc @ [\<lparr>f_file = [], f_package = packageName,
                                     f_version = deps_get dependencies packageName,
                                     f_id = i, f_summary = summary_or_default s\<rparr>],
                         True)))
          else vulns_loop dependencies packageName rest acc)"

text \<open>The outer loop over the result slots, from index \<open>i\<close>.\<close>

fun results_loop ::
  "env \<Rightarrow> deps \<Rightarrow> nat \<Rightarrow> json list \<Rightarrow> finding list \<times> bool \<Rightarrow> error + finding list \<times> bool" where
  "results_loop e dependencies i [] acc = Inr acc"
| "results_loop e dependencies i (r # rest) acc =
     (case get (Some r) ''vulns'' of
        Inl err \<Rightarrow> Inl err
      | Inr v \<Rightarrow>
          (case (if truthy v then length_gt0 e (the v) else Inr False) of
             Inl err \<Rightarrow> Inl err
           | Inr nonempty \<Rightarrow>
               if nonempty then
                 (case iterate (the v) of
                    Inl err \<Rightarrow> Inl err
                  | Inr vulns \<Rightarrow>
                      (case vulns_loop dependencies (nth_opt (map fst dependencies) i) vulns acc of
                         Inl err \<Rightarrow> Inl err
                       | Inr acc1 \<Rightarrow> results_loop e dependencies (Suc i) rest acc1))
               else results_loop e dependencies (Suc i) rest acc))"

subsection \<open>Batching in the words of the specification\<close>











section \<open>One manifest, and the run (main, lines 191 to 324)\<close>

text \<open>\<open>lockFile.endsWith('package-lock.json')\<close> selects the parser (lines 234 to 244).\<close>

definition parse_lock :: "env \<Rightarrow> fsnode \<Rightarrow> path \<Rightarrow> error + deps" where
  "parse_lock e t lockFile =
     (if lockFile \<noteq> [] \<and> endsWith (last lockFile) ''package-lock.json''
      then parsePackageLock e t lockFile
      else parseYarnLock t lockFile)"

text \<open>
  The body of the loop over the manifests. The result is the exception that leaves \<open>main\<close>,
  if any: no lock file and a parse error only skip the manifest.
\<close>

definition process_manifest :: "env \<Rightarrow> path \<Rightarrow> state \<Rightarrow> error option \<times> state" where
  "process_manifest e packageJsonPath st =
     (case resolve_lock e packageJsonPath st of
        (None, st1) \<Rightarrow> (None, st1)
      | (Some lockFile, st1) \<Rightarrow>
          (case parse_lock e (disk st1) lockFile of
             Inl err \<Rightarrow> (None, st1)
           | Inr dependencies \<Rightarrow>
               if dependencies = [] then (None, st1)
               else
                 (case queryOSV e dependencies st1 of
                    (Inl err, st2) \<Rightarrow> (Some err, st2)
                  | (Inr results, st2) \<Rightarrow>
                      (case results_loop e dependencies 0 results ([], hasVulnerabilities st2) of
                         Inl err \<Rightarrow> (Some err, st2)
                       | Inr (vulnerabilities, hv) \<Rightarrow>
                           (None, st2\<lparr>hasVulnerabilities := hv,
                                       allFindings := allFindings st2 @
                                         map (\<lambda>v. v\<lparr>f_file := packageJsonPath\<rparr>) vulnerabilities\<rparr>)))))"

fun manifests_loop :: "env \<Rightarrow> path list \<Rightarrow> state \<Rightarrow> error option \<times> state" where
  "manifests_loop e [] st = (None, st)"
| "manifests_loop e (p # ps) st =
     (case process_manifest e p st of
        (Some err, st1) \<Rightarrow> (Some err, st1)
      | (None, st1) \<Rightarrow> manifests_loop e ps st1)"

text \<open>The cleanup loop (lines 297 to 302).\<close>

fun cleanup :: "path list \<Rightarrow> fsnode \<Rightarrow> fsnode" where
  "cleanup [] t = t"
| "cleanup (lockFile # rest) t = cleanup rest (remove_file t lockFile)"

text \<open>
  What a run leaves: the exit code, the exception caught by \<open>main().catch\<close> if any, the
  findings of the final report, and the final state.
\<close>

record outcome =
  exit_code :: nat
  fatal :: "error option"
  report :: "finding list"
  final :: state

definition initial :: "fsnode \<Rightarrow> state" where
  "initial t = \<lparr>disk = t, spawned = [], requests = [], hasVulnerabilities = False,
                allFindings = [], tempLockFiles = []\<rparr>"

definition main :: "env \<Rightarrow> fsnode \<Rightarrow> outcome" where
  "main e t =
     (case findPackageJsonFiles [] t [] of
        Inl err \<Rightarrow> \<lparr>exit_code = 1, fatal = Some err, report = [], final = initial t\<rparr>
      | Inr packageJsonFiles \<Rightarrow>
          if packageJsonFiles = [] then
            \<lparr>exit_code = 0, fatal = None, report = [], final = initial t\<rparr>
          else
            (case manifests_loop e packageJsonFiles (initial t) of
               (Some err, st) \<Rightarrow> \<lparr>exit_code = 1, fatal = Some err, report = [], final = st\<rparr>
             | (None, st) \<Rightarrow>
                 (let st1 = st\<lparr>disk := cleanup (tempLockFiles st) (disk st)\<rparr>
                  in if hasVulnerabilities st1
                     then \<lparr>exit_code = 1, fatal = None, report = allFindings st1, final = st1\<rparr>
                     else \<lparr>exit_code = 0, fatal = None, report = [], final = st1\<rparr>)))"

subsection \<open>The findings of a run in the words of the specification\<close>



subsection \<open>The reply of the service in the words of the specification\<close>





text \<open>Every request of a log got a reply that parsed.\<close>

definition all_answered :: "env \<Rightarrow> query list list \<Rightarrow> bool" where
  "all_answered e sent = (\<forall>k < length sent. \<exists>j. post e (take k sent) (sent ! k) = Inr j)"

text \<open>The verdict flag says whether there are findings.\<close>

definition consistent :: "state \<Rightarrow> bool" where
  "consistent st = (hasVulnerabilities st \<longleftrightarrow> allFindings st \<noteq> [])"

text \<open>The last request of a log failed with the error, those before it were answered.\<close>

definition halted_by :: "env \<Rightarrow> error \<Rightarrow> query list list \<Rightarrow> bool" where
  "halted_by e err sent = (\<exists>l b. sent = l @ [b] \<and> all_answered e l \<and> post e l b = Inl err)"

section \<open>Sample inputs and runs\<close>

text \<open>Small trees, environments and values on which the theorems below are run.\<close>

definition quiet_env :: env where
  "quiet_env = \<lparr>JSON_parse = (\<lambda>s. None),
                 npm_install = (\<lambda>dir t. (Returned, t)),
                 yarn_install = (\<lambda>dir t. (Returned, t)),
                 osv_respond = (\<lambda>sent batch. NetFail),
                 js_gt0 = (\<lambda>v. Some False)\<rparr>"

definition yarn_project :: fsnode where
  "yarn_project = Dir [(''package.json'', File ''{}''), (''yarn.lock'', File '''')]"

definition bare_project :: fsnode where
  "bare_project = Dir [(''package.json'', File ''{}'')]"

definition failing_npm_env :: env where
  "failing_npm_env = \<lparr>JSON_parse = (\<lambda>s. None),
                 npm_install = (\<lambda>dir t. (Threw, t)),
                 yarn_install = (\<lambda>dir t. (Returned, case t of Dir es \<Rightarrow> Dir (es @ [(''yarn.lock'', File '''')]) | _ \<Rightarrow> t)),
                 osv_respond = (\<lambda>sent batch. NetFail),
                 js_gt0 = (\<lambda>v. Some False)\<rparr>"

definition sample_tree :: fsnode where
  "sample_tree =
     Dir [(''package.json'', File ''{}''),
          (''node_modules'', Dir [(''left-pad'', Dir [(''package.json'', File ''{}'')])]),
          (''.git'', Dir [(''package.json'', File ''{}'')]),
          (''packages'',
             Dir [(''a'', Dir [(''index.js'', File ''''), (''package.json'', File ''{}'')]),
                  (''package.json'', Dir []),
                  (''b'', Dir [(''package.json'', File ''{}'')])]),
          (''README.md'', File '''')]"

definition sample_lock :: json where
  "sample_lock =
     JObj [(''dependencies'',
              JObj [(''a'', JObj [(''version'', JStr ''1.0.0''),
                                  (''dependencies'', JObj [(''b'', JObj [])])])]),
           (''packages'',
              JObj [('''', JObj [(''name'', JStr ''root'')]),
                    (''node_modules/c'', JObj [(''resolved'', JStr ''x'')]),
                    (''node_modules/a/node_modules/d'', JObj [])])]"

definition infected_lock :: json where
  "infected_lock =
     JObj [(''packages'',
              JObj [([], JObj [(''name'', JStr ''app'')]),
                    (''node_modules/colors-update'', JObj [(''version'', JStr ''2.0.0'')])])]"

definition infected_reply :: json where
  "infected_reply =
     JObj [(''results'', JArr [JObj [(''vulns'', JArr [JObj [(''id'', JStr ''MAL-2024-1234'')]])]])]"

definition scan_env :: env where
  "scan_env =
     \<lparr>JSON_parse = (\<lambda>s. if s = ''L'' then Some infected_lock
                          else if s = ''R'' then Some infected_reply else None),
      npm_install = (\<lambda>dir t. (Threw, t)),
      yarn_install = (\<lambda>dir t. (Threw, t)),
      osv_respond = (\<lambda>sent batch. Body ''R''),
      js_gt0 = (\<lambda>v. Some False)\<rparr>"

definition offline_env :: env where
  "offline_env = scan_env\<lparr>osv_respond := (\<lambda>sent batch. NetFail)\<rparr>"

definition infected_project :: fsnode where
  "infected_project = Dir [(''package.json'', File ''{}''), (''package-lock.json'', File ''L'')]"





definition npm_env :: env where
  "npm_env =
     \<lparr>JSON_parse = (\<lambda>s. Some (JObj [])),
      npm_install = (\<lambda>dir t. (Returned,
         case t of Dir es \<Rightarrow> Dir (es @ [(''package-lock.json'', File ''{}'')]) | _ \<Rightarrow> t)),
      yarn_install = (\<lambda>dir t. (Threw, t)),
      osv_respond = (\<lambda>sent batch. NetFail),
      js_gt0 = (\<lambda>v. Some False)\<rparr>"

section \<open>Properties\<close>

lemma bindE_simps [simp]:
  "bindE (Inl e) f = Inl e"
  "bindE (Inr x) f = f x"
  by (simp_all add: bindE_def)

subsection \<open>Strings\<close>

lemma startsWith_iff: "startsWith s p \<longleftrightarrow> (\<exists>rest. s = p @ rest)"
proof
  assume "startsWith s p"
  then have "s = p @ drop (length p) s"
    unfolding startsWith_def using append_take_drop_id [of "length p" s] by simp
  then show "\<exists>rest. s = p @ rest" ..
next
  assume "\<exists>rest. s = p @ rest"
  then show "startsWith s p" by (auto simp: startsWith_def)
qed

lemma str_includes_iff: "str_includes s p \<longleftrightarrow> (\<exists>pre post. s = pre @ p @ post)"
proof (induction s)
  case Nil
  then show ?case by auto
next
  case (Cons c cs)
  show ?case
  proof
    assume "str_includes (c # cs) p"
    then consider "startsWith (c # cs) p" | "str_includes cs p" by auto
    then show "\<exists>pre post. c # cs = pre @ p @ post"
    proof cases
      case 1
      then obtain post where "c # cs = p @ post" using startsWith_iff by blast
      then have "c # cs = [] @ p @ post" by simp
      then show ?thesis by blast
    next
      case 2
      then obtain pre post where "cs = pre @ p @ post" using Cons.IH by blast
      then have "c # cs = (c # pre) @ p @ post" by simp
      then show ?thesis by blast
    qed
  next
    assume "\<exists>pre post. c # cs = pre @ p @ post"
    then obtain pre post where e: "c # cs = pre @ p @ post" by blast
    show "str_includes (c # cs) p"
    proof (cases pre)
      case Nil
      then have "startsWith (c # cs) p" using e startsWith_iff by auto
      then show ?thesis by simp
    next
      case (Cons d pre')
      then have "cs = pre' @ p @ post" using e by simp
      then show ?thesis using Cons.IH by auto
    qed
  qed
qed

lemma letters_distinct: "distinct (map fst letters)"
  by code_simp

lemma letters_disjoint: "a \<in> fst ` set letters \<Longrightarrow> a \<in> snd ` set letters \<Longrightarrow> False"
proof -
  have "list_all (\<lambda>c. list_all (\<lambda>d. c \<noteq> d) (map snd letters)) (map fst letters)"
    by code_simp
  then show "a \<in> fst ` set letters \<Longrightarrow> a \<in> snd ` set letters \<Longrightarrow> False"
    unfolding list_all_iff by fastforce
qed

lemma lower_char_same_letter:
  assumes "b \<in> snd ` set letters"
  shows "lower_char a = b \<longleftrightarrow> same_letter a b"
proof -
  have nb: "(b, x) \<notin> set letters" for x
  proof
    assume "(b, x) \<in> set letters"
    then have "b \<in> fst ` set letters" by (rule image_eqI [rotated]) simp
    with assms show False by (rule letters_disjoint [rotated])
  qed
  show ?thesis
  proof (cases "map_of letters a")
    case None
    have na: "(a, x) \<notin> set letters" for x
    proof
      assume "(a, x) \<in> set letters"
      then have "a \<in> fst ` set letters" by (rule image_eqI [rotated]) simp
      with None show False by (simp add: map_of_eq_None_iff)
    qed
    have "lower_char a = a" using None by (simp add: lower_char_def)
    then show ?thesis using na nb by (simp add: same_letter_def)
  next
    case (Some c)
    then have in1: "(a, c) \<in> set letters" by (rule map_of_SomeD)
    have l: "lower_char a = c" using Some by (simp add: lower_char_def)
    have "a \<noteq> b" using in1 nb by blast
    moreover have "(a, b) \<in> set letters \<longleftrightarrow> c = b"
      using Some letters_distinct map_of_eq_Some_iff [of letters a b] by auto
    ultimately show ?thesis using l nb by (simp add: same_letter_def)
  qed
qed

lemma map_lower_same:
  "set w \<subseteq> snd ` set letters \<Longrightarrow> map lower_char mid = w \<longleftrightarrow> list_all2 same_letter mid w"
proof (induction mid arbitrary: w)
  case Nil
  then show ?case by auto
next
  case (Cons a mid)
  then show ?case
    by (cases w) (auto simp: lower_char_same_letter)
qed

lemma map_split: "map f xs = ys @ zs \<Longrightarrow> \<exists>us vs. xs = us @ vs \<and> map f us = ys \<and> map f vs = zs"
  using map_eq_append_conv [of f xs ys zs] by auto

lemma includes_lower_iff:
  assumes "set w \<subseteq> snd ` set letters"
  shows "str_includes (toLowerCase s) w \<longleftrightarrow> contains_ci s w"
proof -
  have "str_includes (toLowerCase s) w \<longleftrightarrow> (\<exists>pre post. map lower_char s = pre @ w @ post)"
    by (simp add: str_includes_iff toLowerCase_def)
  also have "\<dots> \<longleftrightarrow> (\<exists>pre mid post. s = pre @ mid @ post \<and> map lower_char mid = w)"
  proof
    assume "\<exists>pre post. map lower_char s = pre @ w @ post"
    then obtain pre post where "map lower_char s = pre @ w @ post" by blast
    then obtain a r where s1: "s = a @ r" and r: "map lower_char r = w @ post"
      using map_split by blast
    from r obtain m b where "r = m @ b" "map lower_char m = w"
      using map_split by blast
    with s1 show "\<exists>pre mid post. s = pre @ mid @ post \<and> map lower_char mid = w" by blast
  next
    assume "\<exists>pre mid post. s = pre @ mid @ post \<and> map lower_char mid = w"
    then obtain pre mid post where "s = pre @ mid @ post" "map lower_char mid = w" by blast
    then have "map lower_char s = map lower_char pre @ w @ map lower_char post" by simp
    then show "\<exists>pre post. map lower_char s = pre @ w @ post" by blast
  qed
  also have "\<dots> \<longleftrightarrow> contains_ci s w"
    using assms by (simp add: contains_ci_def map_lower_same)
  finally show ?thesis .
qed

lemma malicious_word: "set ''malicious'' \<subseteq> snd ` set letters"
proof -
  have "list_all (\<lambda>c. list_ex (\<lambda>d. c = d) (map snd letters)) ''malicious''"
    by code_simp
  then show ?thesis
    unfolding list_all_iff list_ex_iff by fastforce
qed

subsection \<open>Classification\<close>

lemma mentions_malicious_free_text:
  "free_text x \<Longrightarrow> mentions_malicious x = Inr (field_mentions x)"
  unfolding free_text_def
proof (erule disjE)
  assume "\<not> truthy x"
  then have "\<not> field_mentions x"
    by (auto simp: field_mentions_def contains_ci_def)
  with \<open>\<not> truthy x\<close> show ?thesis by (simp add: mentions_malicious_def)
next
  assume "\<exists>s. x = Some (JStr s)"
  then obtain s where x: "x = Some (JStr s)" by blast
  show ?thesis
  proof (cases "s = []")
    case True
    then have "\<not> field_mentions x" using x
      by (auto simp: field_mentions_def contains_ci_def)
    then show ?thesis using x True by (simp add: mentions_malicious_def)
  next
    case False
    then show ?thesis using x
      by (simp add: mentions_malicious_def field_mentions_def includes_lower_iff [OF malicious_word])
  qed
qed

lemma isMalicious_not_string_id:
  "(\<And>i. get (Some v) ''id'' \<noteq> Inr (Some (JStr i))) \<Longrightarrow> isMalicious v = Inl TypeError"
  unfolding isMalicious_def
  by (cases v) (auto split: option.splits json.splits)

text \<open>
  C3. An advisory whose id is a string and whose details and summary are free-text fields
  (absent, or falsy, or strings) is classified malicious exactly when its id starts with
  \<open>MAL-\<close>, or its details contain \<open>malicious\<close> in any mix of capitals and small
  letters, or its summary does. The three advisories of the specification are classified
  as it says: malicious, malicious, not malicious.
\<close>

theorem classification_rule:
  "(map_of kvs ''id'' = Some (JStr i) \<and>
    free_text (map_of kvs ''details'') \<and> free_text (map_of kvs ''summary'')
    \<longrightarrow> isMalicious (JObj kvs) =
          Inr ((\<exists>rest. i = ''MAL-'' @ rest)
               \<or> field_mentions (map_of kvs ''details'')
               \<or> field_mentions (map_of kvs ''summary'')))
   \<and> isMalicious (JObj [(''id'', JStr ''MAL-2024-1234''), (''summary'', JStr ''''),
                          (''details'', JStr '''')]) = Inr True
   \<and> isMalicious (JObj [(''id'', JStr ''GHSA-xxxx''),
                          (''summary'', JStr ''Contains Malicious code'')]) = Inr True
   \<and> isMalicious (JObj [(''id'', JStr ''GHSA-yyyy''),
                          (''summary'', JStr ''Denial of service'')]) = Inr False"
proof (intro conjI impI)
  assume a: "map_of kvs ''id'' = Some (JStr i) \<and>
    free_text (map_of kvs ''details'') \<and> free_text (map_of kvs ''summary'')"
  then show "isMalicious (JObj kvs) =
          Inr ((\<exists>rest. i = ''MAL-'' @ rest)
               \<or> field_mentions (map_of kvs ''details'')
               \<or> field_mentions (map_of kvs ''summary''))"
    by (simp add: isMalicious_def mentions_malicious_free_text startsWith_iff)
next
  show "isMalicious (JObj [(''id'', JStr ''MAL-2024-1234''), (''summary'', JStr ''''),
                          (''details'', JStr '''')]) = Inr True"
    by code_simp
next
  show "isMalicious (JObj [(''id'', JStr ''GHSA-xxxx''),
                          (''summary'', JStr ''Contains Malicious code'')]) = Inr True"
    by code_simp
next
  show "isMalicious (JObj [(''id'', JStr ''GHSA-yyyy''),
                          (''summary'', JStr ''Denial of service'')]) = Inr False"
    by code_simp
qed

lemma contains_ci_example: "contains_ci ''A MALicious thing'' ''malicious''"
proof -
  have "list_all2 same_letter ''MALicious'' ''malicious''"
    by (simp add: same_letter_def letters_def)
  moreover have "''A MALicious thing'' = ''A '' @ ''MALicious'' @ '' thing''" by simp
  ultimately show ?thesis unfolding contains_ci_def by blast
qed

theorem classification_rule_witness:
  "map_of [(''id'', JStr ''GHSA-1''), (''details'', JStr ''A MALicious thing'')] ''id'' = Some (JStr ''GHSA-1'')
   \<and> free_text (map_of [(''id'', JStr ''GHSA-1''), (''details'', JStr ''A MALicious thing'')] ''details'')
   \<and> free_text (map_of [(''id'', JStr ''GHSA-1''), (''details'', JStr ''A MALicious thing'')] ''summary'')
   \<and> field_mentions (Some (JStr ''A MALicious thing''))
   \<and> isMalicious (JObj [(''id'', JStr ''GHSA-1''), (''details'', JStr ''A MALicious thing'')]) = Inr True"
  using classification_rule [of "[(''id'', JStr ''GHSA-1''), (''details'', JStr ''A MALicious thing'')]" "''GHSA-1''"]
    contains_ci_example
  by (simp add: free_text_def field_mentions_def)

lemma mentions_malicious_not_free_text:
  "\<not> free_text x \<Longrightarrow> mentions_malicious x = Inl TypeError"
  by (cases x; cases "the x") (auto simp: free_text_def mentions_malicious_def)

lemma isMalicious_total_iff:
  assumes "map_of kvs ''id'' = Some (JStr i)"
  shows "(\<exists>b. isMalicious (JObj kvs) = Inr b) \<longleftrightarrow>
           (\<exists>rest. i = ''MAL-'' @ rest)
           \<or> (free_text (map_of kvs ''details'')
              \<and> (field_mentions (map_of kvs ''details'') \<or> free_text (map_of kvs ''summary'')))"
proof (cases "startsWith i ''MAL-''")
  case True
  then have "isMalicious (JObj kvs) = Inr True" using assms by (simp add: isMalicious_def)
  then show ?thesis using True by (auto simp: startsWith_iff)
next
  case nm: False
  show ?thesis
  proof (cases "free_text (map_of kvs ''details'')")
    case False
    then show ?thesis using assms nm
      by (simp add: isMalicious_def mentions_malicious_not_free_text startsWith_iff)
  next
    case d: True
    show ?thesis
    proof (cases "field_mentions (map_of kvs ''details'')")
      case True
      then have "isMalicious (JObj kvs) = Inr True" using assms nm d
        by (simp add: isMalicious_def mentions_malicious_free_text)
      then show ?thesis using True d by auto
    next
      case fm: False
      show ?thesis
      proof (cases "free_text (map_of kvs ''summary'')")
        case True
        then have "isMalicious (JObj kvs) = Inr (field_mentions (map_of kvs ''summary''))"
          using assms nm d fm by (simp add: isMalicious_def mentions_malicious_free_text)
        then show ?thesis using True d by auto
      next
        case False
        then show ?thesis using assms nm d fm
          by (simp add: isMalicious_def mentions_malicious_free_text
              mentions_malicious_not_free_text startsWith_iff)
      qed
    qed
  qed
qed

text \<open>
  C10. Classification reads \<open>vuln.id\<close> and calls \<open>startsWith\<close> on it without a guard. On an
  advisory whose id is a string (its details and summary being free-text fields)
  classification returns a verdict. On an advisory with no id it throws a TypeError, and
  so it does on every value whose id is not a string. With a string id, the verdict is
  reached exactly when the id starts with \<open>MAL-\<close>, or the details are free text and either
  mention \<open>malicious\<close> or are followed by a free-text summary: a truthy details or summary
  that is not a string is the one other way to a TypeError.
\<close>

theorem classification_needs_string_id:
  "(map_of kvs ''id'' = Some (JStr i) \<and>
    free_text (map_of kvs ''details'') \<and> free_text (map_of kvs ''summary'')
    \<longrightarrow> (\<exists>b. isMalicious (JObj kvs) = Inr b))
   \<and> (map_of kvs ''id'' = None \<longrightarrow> isMalicious (JObj kvs) = Inl TypeError)
   \<and> ((\<forall>i. get (Some v) ''id'' \<noteq> Inr (Some (JStr i))) \<longrightarrow> isMalicious v = Inl TypeError)
   \<and> (map_of kvs ''id'' = Some (JStr i) \<longrightarrow>
        ((\<exists>b. isMalicious (JObj kvs) = Inr b) \<longleftrightarrow>
           (\<exists>rest. i = ''MAL-'' @ rest)
           \<or> (free_text (map_of kvs ''details'')
              \<and> (field_mentions (map_of kvs ''details'')
                 \<or> free_text (map_of kvs ''summary'')))))"
proof (intro conjI impI)
  assume "map_of kvs ''id'' = Some (JStr i) \<and>
    free_text (map_of kvs ''details'') \<and> free_text (map_of kvs ''summary'')"
  then show "\<exists>b. isMalicious (JObj kvs) = Inr b"
    by (auto simp: isMalicious_def mentions_malicious_free_text)
next
  assume "map_of kvs ''id'' = Some (JStr i)"
  then show "(\<exists>b. isMalicious (JObj kvs) = Inr b) \<longleftrightarrow>
           (\<exists>rest. i = ''MAL-'' @ rest)
           \<or> (free_text (map_of kvs ''details'')
              \<and> (field_mentions (map_of kvs ''details'')
                 \<or> free_text (map_of kvs ''summary'')))"
    by (rule isMalicious_total_iff)
next
  assume "map_of kvs ''id'' = None"
  then show "isMalicious (JObj kvs) = Inl TypeError"
    by (simp add: isMalicious_not_string_id)
next
  assume "\<forall>i. get (Some v) ''id'' \<noteq> Inr (Some (JStr i))"
  then show "isMalicious v = Inl TypeError"
    by (simp add: isMalicious_not_string_id)
qed

theorem classification_needs_string_id_witness:
  "map_of [(''id'', JStr ''GHSA-1''), (''summary'', JStr ''x'')] ''id'' = Some (JStr ''GHSA-1'')
   \<and> free_text (map_of [(''id'', JStr ''GHSA-1''), (''summary'', JStr ''x'')] ''details'')
   \<and> free_text (map_of [(''id'', JStr ''GHSA-1''), (''summary'', JStr ''x'')] ''summary'')
   \<and> (\<exists>b. isMalicious (JObj [(''id'', JStr ''GHSA-1''), (''summary'', JStr ''x'')]) = Inr b)
   \<and> map_of [(''summary'', JStr ''malicious'')] ''id'' = None
   \<and> isMalicious (JObj [(''summary'', JStr ''malicious'')]) = Inl TypeError
   \<and> (\<forall>i. get (Some (JObj [(''id'', JNum 7)])) ''id'' \<noteq> Inr (Some (JStr i)))
   \<and> isMalicious (JObj [(''id'', JNum 7)]) = Inl TypeError"
proof -
  have f: "free_text (map_of [(''id'', JStr ''GHSA-1''), (''summary'', JStr ''x'')] ''details'')"
          "free_text (map_of [(''id'', JStr ''GHSA-1''), (''summary'', JStr ''x'')] ''summary'')"
    by (simp_all add: free_text_def)
  have i: "map_of [(''id'', JStr ''GHSA-1''), (''summary'', JStr ''x'')] ''id'' = Some (JStr ''GHSA-1'')"
    by simp
  have n: "map_of [(''summary'', JStr ''malicious'')] ''id'' = None" by simp
  have g: "\<forall>i. get (Some (JObj [(''id'', JNum 7)])) ''id'' \<noteq> Inr (Some (JStr i))" by simp
  from classification_needs_string_id
         [of "[(''id'', JStr ''GHSA-1''), (''summary'', JStr ''x'')]" "''GHSA-1''"
             "JObj [(''id'', JNum 7)]"] f i g
  have 1: "\<exists>b. isMalicious (JObj [(''id'', JStr ''GHSA-1''), (''summary'', JStr ''x'')]) = Inr b"
      and 2: "isMalicious (JObj [(''id'', JNum 7)]) = Inl TypeError"
    by blast+
  from classification_needs_string_id [of "[(''summary'', JStr ''malicious'')]" "[]" JNull] n
  have 3: "isMalicious (JObj [(''summary'', JStr ''malicious'')]) = Inl TypeError"
    by blast
  show ?thesis using f i n g 1 2 3 by blast
qed

subsection \<open>The lock resolver\<close>

lemma generateLockFile_existing:
  assumes "existsSync (disk st) (join (dirname p) ''package-lock.json'')
           \<or> existsSync (disk st) (join (dirname p) ''yarn.lock'')"
  shows "generateLockFile e p st = (Some (lock_beside (disk st) p), st)"
  using assms by (simp add: generateLockFile_def lock_beside_def Let_def)

lemma resolve_lock_existing:
  assumes "existsSync (disk st) (join (dirname p) ''package-lock.json'')
           \<or> existsSync (disk st) (join (dirname p) ''yarn.lock'')"
  shows "resolve_lock e p st = (Some (lock_beside (disk st) p), st)"
  using assms by (auto simp add: resolve_lock_def lock_beside_def Let_def)

lemma run_times_fixed:
  "resolver st = (r, st) \<Longrightarrow> run_times n resolver st = (replicate n r, st)"
  by (induction n) simp_all

text \<open>
  C6. When a lock file lies beside the manifest, resolving any number of times returns the
  same path every time (package-lock.json if it is there, else yarn.lock) and leaves the
  state as it was: no subprocess is spawned, the tree and so the content of the lock file
  are unchanged, nothing is marked for cleanup. This holds for the resolver of \<open>main\<close> and
  for \<open>generateLockFile\<close> alone.
\<close>

theorem resolver_idempotent:
  assumes "existsSync (disk st) (join (dirname p) ''package-lock.json'')
           \<or> existsSync (disk st) (join (dirname p) ''yarn.lock'')"
  shows "run_times n (resolve_lock e p) st = (replicate n (Some (lock_beside (disk st) p)), st)
       \<and> run_times n (generateLockFile e p) st = (replicate n (Some (lock_beside (disk st) p)), st)
       \<and> spawned (snd (run_times n (resolve_lock e p) st)) = spawned st
       \<and> disk (snd (run_times n (resolve_lock e p) st)) = disk st
       \<and> tempLockFiles (snd (run_times n (resolve_lock e p) st)) = tempLockFiles st
       \<and> existsSync (disk st) (lock_beside (disk st) p)"
proof -
  have 1: "run_times n (resolve_lock e p) st = (replicate n (Some (lock_beside (disk st) p)), st)"
    using assms by (intro run_times_fixed resolve_lock_existing)
  have 2: "run_times n (generateLockFile e p) st = (replicate n (Some (lock_beside (disk st) p)), st)"
    using assms by (intro run_times_fixed generateLockFile_existing)
  have 3: "existsSync (disk st) (lock_beside (disk st) p)"
    using assms by (auto simp: lock_beside_def)
  show ?thesis using 1 2 3 by simp
qed

theorem resolver_idempotent_witness:
  "existsSync (disk (initial yarn_project)) (join (dirname [''package.json'']) ''yarn.lock'')
   \<and> run_times 3 (resolve_lock quiet_env [''package.json'']) (initial yarn_project)
       = ([Some [''yarn.lock''], Some [''yarn.lock''], Some [''yarn.lock'']], initial yarn_project)"
proof -
  have h: "existsSync (disk (initial yarn_project)) (join (dirname [''package.json'']) ''yarn.lock'')"
    by (simp add: initial_def yarn_project_def existsSync_def join_def dirname_def)
  have l: "lock_beside (disk (initial yarn_project)) [''package.json''] = [''yarn.lock'']"
    by (simp add: lock_beside_def initial_def yarn_project_def existsSync_def join_def dirname_def)
  have r: "replicate 3 x = [x, x, x]" for x :: "path option"
    by (simp add: numeral_3_eq_3)
  from resolver_idempotent [of "initial yarn_project" "[''package.json'']" 3 quiet_env] h l r
  show ?thesis by simp
qed

text \<open>
  C5, as stated, fails: when npm returns normally and has written no package-lock.json,
  \<open>generateLockFile\<close> returns \<open>null\<close> and yarn is never spawned.
\<close>

theorem yarn_not_tried_after_quiet_npm:
  "\<not> existsSync bare_project [''package-lock.json'']
   \<and> \<not> existsSync bare_project [''yarn.lock'']
   \<and> npm_install quiet_env [] bare_project = (Returned, bare_project)
   \<and> fst (generateLockFile quiet_env [''package.json''] (initial bare_project)) = None
   \<and> spawned (snd (generateLockFile quiet_env [''package.json''] (initial bare_project))) = [(''npm'', [])]"
  by (simp add: generateLockFile_def quiet_env_def bare_project_def initial_def existsSync_def
      join_def dirname_def)

text \<open>
  C5, amended. With no lock file beside the manifest, yarn is tried exactly when the npm
  subprocess throws. If npm returns, the result is package-lock.json when it is then on
  disk and failure otherwise, and only npm has been spawned. If npm throws, yarn is
  spawned, and the result is yarn.lock when yarn returns and yarn.lock is then on disk,
  failure otherwise. So a synthesis succeeds when the subprocess returns normally and the
  expected lock file then exists.
\<close>

theorem generateLockFile_fallback:
  assumes "\<not> existsSync (disk st) (join (dirname p) ''package-lock.json'')"
      and "\<not> existsSync (disk st) (join (dirname p) ''yarn.lock'')"
  shows "(fst (npm_install e (dirname p) (disk st)) = Returned \<longrightarrow>
            spawned (snd (generateLockFile e p st)) = spawned st @ [(''npm'', dirname p)]
          \<and> disk (snd (generateLockFile e p st)) = snd (npm_install e (dirname p) (disk st))
          \<and> fst (generateLockFile e p st) =
              (if existsSync (snd (npm_install e (dirname p) (disk st)))
                    (join (dirname p) ''package-lock.json'')
               then Some (join (dirname p) ''package-lock.json'') else None))
       \<and> (fst (npm_install e (dirname p) (disk st)) = Threw \<longrightarrow>
            spawned (snd (generateLockFile e p st))
              = spawned st @ [(''npm'', dirname p), (''yarn'', dirname p)]
          \<and> disk (snd (generateLockFile e p st))
              = snd (yarn_install e (dirname p) (snd (npm_install e (dirname p) (disk st))))
          \<and> fst (generateLockFile e p st) =
              (if fst (yarn_install e (dirname p) (snd (npm_install e (dirname p) (disk st)))) = Returned
                  \<and> existsSync (snd (yarn_install e (dirname p) (snd (npm_install e (dirname p) (disk st)))))
                       (join (dirname p) ''yarn.lock'')
               then Some (join (dirname p) ''yarn.lock'') else None))"
  using assms
  by (auto simp: generateLockFile_def Let_def split: prod.splits exit_status.splits)

theorem generateLockFile_fallback_witness:
  "\<not> existsSync (disk (initial bare_project)) (join (dirname [''package.json'']) ''package-lock.json'')
   \<and> \<not> existsSync (disk (initial bare_project)) (join (dirname [''package.json'']) ''yarn.lock'')
   \<and> fst (npm_install failing_npm_env (dirname [''package.json'']) (disk (initial bare_project))) = Threw
   \<and> spawned (snd (generateLockFile failing_npm_env [''package.json''] (initial bare_project)))
       = [(''npm'', []), (''yarn'', [])]
   \<and> fst (generateLockFile failing_npm_env [''package.json''] (initial bare_project)) = Some [''yarn.lock'']"
  using generateLockFile_fallback [of "initial bare_project" "[''package.json'']" failing_npm_env]
  by (simp add: failing_npm_env_def bare_project_def initial_def existsSync_def join_def dirname_def)

subsection \<open>Discovery\<close>

lemma all_files_under:
  "p \<in> set (all_files dir t) \<Longrightarrow> \<exists>q. p = dir @ q \<and> q \<noteq> []"
  "p \<in> set (all_files_entries dir es) \<Longrightarrow> \<exists>q. p = dir @ q \<and> q \<noteq> []"
proof (induction dir t and dir es arbitrary: p and p rule: all_files_all_files_entries.induct)
  case (5 dir name node rest)
  from "5.prems" consider
      (here) "isDirectory node" "p \<in> set (all_files (dir @ [name]) node)"
    | (leaf) "\<not> isDirectory node" "p = dir @ [name]"
    | (later) "p \<in> set (all_files_entries dir rest)"
    by (auto split: if_splits)
  then show ?case
  proof cases
    case here
    then obtain q where "p = (dir @ [name]) @ q" using "5.IH"(1) by blast
    then have "p = dir @ (name # q)" by simp
    then show ?thesis by blast
  next
    case leaf
    then show ?thesis by blast
  next
    case later
    then show ?thesis using "5.IH"(2) by blast
  qed
qed simp_all

lemma excluded_dir_iff: "excluded_dir name \<longleftrightarrow> name = ''node_modules'' \<or> startsWith name ''.''"
  by (simp add: excluded_dir_def startsWith_iff)

lemma not_manifest_under_excluded:
  assumes "excluded_dir name" "p = base @ ds @ name # q" "q \<noteq> []"
  shows "\<not> is_manifest base p"
proof -
  have "butlast (drop (length base) p) = ds @ name # butlast q"
    using assms by (simp add: butlast_append)
  then show ?thesis using assms(1) by (auto simp: is_manifest_def)
qed

lemma filter_under_excluded:
  assumes "excluded_dir name"
  shows "filter (is_manifest base) (all_files (base @ ds @ [name]) node) = []"
proof -
  have "\<not> is_manifest base p" if "p \<in> set (all_files (base @ ds @ [name]) node)" for p
  proof -
    from that obtain q where "p = (base @ ds @ [name]) @ q" "q \<noteq> []"
      using all_files_under(1) by blast
    then show ?thesis using assms not_manifest_under_excluded [of name p base ds q] by simp
  qed
  then show ?thesis by (simp add: filter_empty_conv)
qed

lemma is_manifest_leaf:
  "is_manifest base (base @ ds @ [name]) \<longleftrightarrow> name = ''package.json'' \<and> (\<forall>d\<in>set ds. \<not> excluded_dir d)"
  by (auto simp: is_manifest_def butlast_append)

lemma package_json_not_excluded: "\<not> excluded_dir ''package.json''"
  by (simp add: excluded_dir_def)

lemma find_refines:
  "\<forall>d\<in>set ds. \<not> excluded_dir d \<Longrightarrow> dir = base @ ds \<Longrightarrow>
     findPackageJsonFiles dir t files = Inr r \<Longrightarrow>
     r = files @ filter (is_manifest base) (all_files dir t)"
  "\<forall>d\<in>set ds. \<not> excluded_dir d \<Longrightarrow> dir = base @ ds \<Longrightarrow>
     find_entries dir es files = Inr r \<Longrightarrow>
     r = files @ filter (is_manifest base) (all_files_entries dir es)"
proof (induction dir t files and dir es files arbitrary: ds r and ds r
       rule: findPackageJsonFiles_find_entries.induct)
  case (5 dir name node rest files)
  note ds = "5.prems"(1) and dir = "5.prems"(2)
  show ?case
  proof (cases "name = ''node_modules'' \<or> startsWith name ''.''")
    case True
    then have ex: "excluded_dir name" by (simp add: excluded_dir_iff)
    from True "5.prems"(3) have "find_entries dir rest files = Inr r" by simp
    then have r: "r = files @ filter (is_manifest base) (all_files_entries dir rest)"
      using "5.IH"(1) [OF True ds dir] by simp
    have "filter (is_manifest base) (if isDirectory node then all_files (dir @ [name]) node else [dir @ [name]]) = []"
    proof (cases "isDirectory node")
      case True
      then show ?thesis using filter_under_excluded [OF ex, of base ds node] dir by simp
    next
      case False
      have "name \<noteq> ''package.json''" using ex package_json_not_excluded by auto
      then show ?thesis using False dir is_manifest_leaf [of base ds name] by simp
    qed
    then show ?thesis using r by simp
  next
    case nex: False
    then have nexd: "\<not> excluded_dir name" by (simp add: excluded_dir_iff)
    show ?thesis
    proof (cases "isDirectory node")
      case True
      from nex True "5.prems"(3) obtain files' where
        f1: "findPackageJsonFiles (join dir name) node files = Inr files'" and
        f2: "find_entries dir rest files' = Inr r"
        by (auto split: sum.splits)
      have ds': "\<forall>d\<in>set (ds @ [name]). \<not> excluded_dir d" using ds nexd by simp
      have dir': "join dir name = base @ ds @ [name]" using dir by (simp add: join_def)
      have a: "files' = files @ filter (is_manifest base) (all_files (join dir name) node)"
        using "5.IH"(2) [OF nex True ds' _ f1] dir' by simp
      have b: "r = files' @ filter (is_manifest base) (all_files_entries dir rest)"
        using "5.IH"(3) [OF nex True f1 ds dir f2] .
      show ?thesis using a b True by (simp add: join_def)
    next
      case False
      show ?thesis
      proof (cases "name = ''package.json''")
        case True
        from nex False True "5.prems"(3)
        have "find_entries dir rest (files @ [join dir name]) = Inr r" by simp
        then have "r = (files @ [join dir name]) @ filter (is_manifest base) (all_files_entries dir rest)"
          using "5.IH"(4) [OF nex False True ds dir] by simp
        moreover have "is_manifest base (dir @ [name])"
          using True ds dir is_manifest_leaf [of base ds name] by simp
        ultimately show ?thesis using False by (simp add: join_def)
      next
        case npj: False
        from nex False npj "5.prems"(3)
        have "find_entries dir rest files = Inr r" by simp
        then have "r = files @ filter (is_manifest base) (all_files_entries dir rest)"
          using "5.IH"(5) [OF nex False npj ds dir] by simp
        moreover have "\<not> is_manifest base (dir @ [name])"
          using npj dir is_manifest_leaf [of base ds name] by simp
        ultimately show ?thesis using False by simp
      qed
    qed
  qed
qed simp_all

lemma find_total:
  "readable t \<Longrightarrow> isDirectory t \<Longrightarrow> \<exists>r. findPackageJsonFiles dir t files = Inr r"
  "readable_entries es \<Longrightarrow> \<exists>r. find_entries dir es files = Inr r"
proof (induction dir t files and dir es files rule: findPackageJsonFiles_find_entries.induct)
  case (5 dir name node rest files)
  from "5.prems" have rn: "readable node" and rr: "readable_entries rest" by simp_all
  show ?case
  proof (cases "name = ''node_modules'' \<or> startsWith name ''.''")
    case True
    then show ?thesis using "5.IH"(1) [OF True rr] by simp
  next
    case nex: False
    show ?thesis
    proof (cases "isDirectory node")
      case True
      from "5.IH"(2) [OF nex True rn True] obtain files' where
        f1: "findPackageJsonFiles (join dir name) node files = Inr files'" by blast
      from "5.IH"(3) [OF nex True f1 rr] obtain r where "find_entries dir rest files' = Inr r"
        by blast
      then show ?thesis using nex True f1 by simp
    next
      case False
      show ?thesis
      proof (cases "name = ''package.json''")
        case True
        then show ?thesis using nex False "5.IH"(4) [OF nex False True rr] by simp
      next
        case npj: False
        then show ?thesis using nex False "5.IH"(5) [OF nex False npj rr] by simp
      qed
    qed
  qed
qed simp_all

text \<open>
  C8. When discovery returns, it returns the files named \<open>package.json\<close> under the root
  that have no directory named \<open>node_modules\<close> and no directory whose name begins with a
  dot on the way down, in the depth-first, directory-entry order of the full listing of
  the tree: nothing else is left out, at any depth. It returns whenever every directory of
  the tree can be listed, and throws when the root cannot.
\<close>

theorem discovery_finds_manifests:
  "(findPackageJsonFiles dir t [] = Inr r \<longrightarrow> r = filter (is_manifest dir) (all_files dir t))
   \<and> (readable (Dir es) \<longrightarrow> (\<exists>r. findPackageJsonFiles dir (Dir es) [] = Inr r))
   \<and> findPackageJsonFiles dir NoAccess [] = Inl FsError"
proof (intro conjI impI)
  assume "findPackageJsonFiles dir t [] = Inr r"
  then show "r = filter (is_manifest dir) (all_files dir t)"
    using find_refines(1) [of "[]" dir dir t "[]" r] by simp
next
  assume "readable (Dir es)"
  then show "\<exists>r. findPackageJsonFiles dir (Dir es) [] = Inr r"
    using find_total(1) [of "Dir es"] by simp
next
  show "findPackageJsonFiles dir NoAccess [] = Inl FsError" by simp
qed

theorem discovery_finds_manifests_witness:
  "findPackageJsonFiles [] sample_tree []
     = Inr [[''package.json''], [''packages'', ''a'', ''package.json''],
            [''packages'', ''b'', ''package.json'']]
   \<and> filter (is_manifest []) (all_files [] sample_tree)
     = [[''package.json''], [''packages'', ''a'', ''package.json''],
        [''packages'', ''b'', ''package.json'']]
   \<and> readable sample_tree"
proof -
  have f: "findPackageJsonFiles [] sample_tree []
     = Inr [[''package.json''], [''packages'', ''a'', ''package.json''],
            [''packages'', ''b'', ''package.json'']]"
    by (simp add: sample_tree_def startsWith_def join_def)
  have r: "readable sample_tree" by (simp add: sample_tree_def)
  from discovery_finds_manifests [of "[]" sample_tree
      "[[''package.json''], [''packages'', ''a'', ''package.json''], [''packages'', ''b'', ''package.json'']]"] f
  have "[[''package.json''], [''packages'', ''a'', ''package.json''], [''packages'', ''b'', ''package.json'']]
        = filter (is_manifest []) (all_files [] sample_tree)"
    by blast
  with f r show ?thesis by simp
qed

subsection \<open>The lock parser\<close>

lemma get_version_of: "get (Some info) ''version'' = Inr v \<Longrightarrow> version_of info = v"
  by (simp add: version_of_def)

lemma get_not_null: "info \<noteq> JNull \<Longrightarrow> \<exists>v. get (Some info) k = Inr v"
  by (cases info) simp_all

lemma extractDeps_fold:
  "extractDeps es deps = Inr deps' \<Longrightarrow> deps' = fold record_node (legacy_nodes es) deps"
proof (induction es deps arbitrary: deps' rule: extractDeps.induct)
  case (1 deps)
  then show ?case by simp
next
  case (2 name info rest deps)
  from "2.prems" obtain v where v: "get (Some info) ''version'' = Inr v"
    by (auto split: sum.splits)
  from "2.prems" v obtain d where d: "get (Some info) ''dependencies'' = Inr d"
    by (auto simp: Let_def split: sum.splits)
  define deps1 where "deps1 = AList.update name (or_unknown v) deps"
  have r1: "record_node (name, info) deps = deps1"
    using v by (simp add: record_node_def deps1_def get_version_of)
  show ?case
  proof (cases "truthy d")
    case True
    from "2.prems" v d True obtain deps2 where
      a: "extractDeps (entries (the d)) deps1 = Inr deps2" and
      b: "extractDeps rest deps2 = Inr deps'"
      by (auto simp: Let_def deps1_def split: sum.splits)
    have "deps2 = fold record_node (legacy_nodes (entries (the d))) deps1"
      using "2.IH"(1) [OF v deps1_def d True a] .
    moreover have "deps' = fold record_node (legacy_nodes rest) deps2"
      using "2.IH"(2) [OF v deps1_def d True a b] .
    ultimately show ?thesis using d True r1 by simp
  next
    case False
    from "2.prems" v d False have b: "extractDeps rest deps1 = Inr deps'"
      by (auto simp: Let_def deps1_def)
    have "deps' = fold record_node (legacy_nodes rest) deps1"
      using "2.IH"(3) [OF v deps1_def d False b] .
    then show ?thesis using d False r1 by simp
  qed
qed

lemma extractDeps_total:
  "\<forall>node \<in> set (legacy_nodes es). snd node \<noteq> JNull \<Longrightarrow> \<exists>deps'. extractDeps es deps = Inr deps'"
proof (induction es deps rule: extractDeps.induct)
  case (1 deps)
  then show ?case by simp
next
  case (2 name info rest deps)
  from "2.prems" have nn: "info \<noteq> JNull" by simp
  then obtain v where v: "get (Some info) ''version'' = Inr v" using get_not_null by blast
  from nn obtain d where d: "get (Some info) ''dependencies'' = Inr d" using get_not_null by blast
  define deps1 where "deps1 = AList.update name (or_unknown v) deps"
  from "2.prems" d have rest: "\<forall>node \<in> set (legacy_nodes rest). snd node \<noteq> JNull" by simp
  show ?case
  proof (cases "truthy d")
    case True
    from "2.prems" d True have "\<forall>node \<in> set (legacy_nodes (entries (the d))). snd node \<noteq> JNull"
      by simp
    from "2.IH"(1) [OF v deps1_def d True this] obtain deps2 where
      a: "extractDeps (entries (the d)) deps1 = Inr deps2" by blast
    from "2.IH"(2) [OF v deps1_def d True a rest] obtain deps' where
      "extractDeps rest deps2 = Inr deps'" by blast
    then show ?thesis using v d True a by (simp add: deps1_def)
  next
    case False
    from "2.IH"(3) [OF v deps1_def d False rest] obtain deps' where
      "extractDeps rest deps1 = Inr deps'" by blast
    then show ?thesis using v d False by (simp add: deps1_def)
  qed
qed

lemma packages_loop_fold:
  "packages_loop es deps = Inr deps' \<Longrightarrow> deps' = fold record_node (v3_nodes es) deps"
proof (induction es deps arbitrary: deps' rule: packages_loop.induct)
  case (1 deps)
  then show ?case by (simp add: v3_nodes_def)
next
  case (2 key info rest deps)
  show ?case
  proof (cases "names_package key")
    case True
    then have k: "key \<noteq> []" "strip_node_modules key \<noteq> [] \<and> \<not> str_includes (strip_node_modules key) ''node_modules''"
      by (simp_all add: names_package_def)
    from "2.prems" k obtain v where v: "get (Some info) ''version'' = Inr v"
      by (auto simp: Let_def split: sum.splits)
    from "2.prems" k v have
      "packages_loop rest (AList.update (strip_node_modules key) (or_unknown v) deps) = Inr deps'"
      by (simp add: Let_def)
    from "2.IH"(1) [OF k(1) refl k(2) v this]
    show ?thesis using True v by (simp add: v3_nodes_def record_node_def get_version_of)
  next
    case False
    show ?thesis
    proof (cases "key \<noteq> []")
      case True
      with False have n: "\<not> (strip_node_modules key \<noteq> [] \<and> \<not> str_includes (strip_node_modules key) ''node_modules'')"
        by (simp add: names_package_def)
      from "2.prems" True n have "packages_loop rest deps = Inr deps'" by (simp add: Let_def)
      from "2.IH"(2) [OF True refl n this] show ?thesis using False by (simp add: v3_nodes_def)
    next
      case e: False
      from "2.prems" e have "packages_loop rest deps = Inr deps'" by simp
      from "2.IH"(3) [OF e this] show ?thesis using False by (simp add: v3_nodes_def)
    qed
  qed
qed

lemma packages_loop_total:
  "\<forall>node \<in> set (v3_nodes es). snd node \<noteq> JNull \<Longrightarrow> \<exists>deps'. packages_loop es deps = Inr deps'"
proof (induction es deps rule: packages_loop.induct)
  case (1 deps)
  then show ?case by simp
next
  case (2 key info rest deps)
  show ?case
  proof (cases "names_package key")
    case True
    then have k: "key \<noteq> []" "strip_node_modules key \<noteq> [] \<and> \<not> str_includes (strip_node_modules key) ''node_modules''"
      by (simp_all add: names_package_def)
    from "2.prems" True have nn: "info \<noteq> JNull" and
      rest: "\<forall>node \<in> set (v3_nodes rest). snd node \<noteq> JNull"
      by (simp_all add: v3_nodes_def)
    from nn obtain v where v: "get (Some info) ''version'' = Inr v" using get_not_null by blast
    from "2.IH"(1) [OF k(1) refl k(2) v rest] show ?thesis using k v by (simp add: Let_def)
  next
    case False
    from "2.prems" False have rest: "\<forall>node \<in> set (v3_nodes rest). snd node \<noteq> JNull"
      by (simp add: v3_nodes_def)
    show ?thesis
    proof (cases "key \<noteq> []")
      case True
      with False have n: "\<not> (strip_node_modules key \<noteq> [] \<and> \<not> str_includes (strip_node_modules key) ''node_modules'')"
        by (simp add: names_package_def)
      from "2.IH"(2) [OF True refl n rest] show ?thesis using True n by (auto simp: Let_def)
    next
      case e: False
      from "2.IH"(3) [OF e rest] show ?thesis using e by simp
    qed
  qed
qed

lemma parse_lockData_fold:
  assumes "parse_lockData lockData = Inr deps"
  shows "deps = fold record_node (lock_nodes lockData) []"
proof -
  from assms obtain d where d: "get (Some lockData) ''dependencies'' = Inr d"
    by (cases "get (Some lockData) ''dependencies''") (simp_all add: parse_lockData_def)
  from assms d obtain deps1 where
    l: "(if truthy d then extractDeps (entries (the d)) [] else Inr []) = Inr deps1"
    by (cases "if truthy d then extractDeps (entries (the d)) [] else Inr []")
       (simp_all add: parse_lockData_def)
  from assms d l obtain p where p: "get (Some lockData) ''packages'' = Inr p"
    by (cases "get (Some lockData) ''packages''") (simp_all add: parse_lockData_def)
  from assms d l p have
    r: "(if truthy p then packages_loop (entries (the p)) deps1 else Inr deps1) = Inr deps"
    by (simp add: parse_lockData_def)
  have 1: "deps1 = fold record_node (if truthy d then legacy_nodes (entries (the d)) else []) []"
    using l extractDeps_fold by (auto split: if_splits)
  have 2: "deps = fold record_node (if truthy p then v3_nodes (entries (the p)) else []) deps1"
    using r packages_loop_fold by (auto split: if_splits)
  show ?thesis using 1 2 d p by (simp add: lock_nodes_def)
qed

lemma parse_lockData_total:
  assumes "lockData \<noteq> JNull" "\<forall>node \<in> set (lock_nodes lockData). snd node \<noteq> JNull"
  shows "\<exists>deps. parse_lockData lockData = Inr deps"
proof -
  from assms(1) obtain d where d: "get (Some lockData) ''dependencies'' = Inr d"
    using get_not_null by blast
  from assms(1) obtain p where p: "get (Some lockData) ''packages'' = Inr p"
    using get_not_null by blast
  have "\<exists>deps1. (if truthy d then extractDeps (entries (the d)) [] else Inr []) = Inr deps1"
    using assms(2) d extractDeps_total [of "entries (the d)" "[]"] by (auto simp: lock_nodes_def)
  then obtain deps1 where
    l: "(if truthy d then extractDeps (entries (the d)) [] else Inr []) = Inr deps1" by blast
  have "\<exists>deps. (if truthy p then packages_loop (entries (the p)) deps1 else Inr deps1) = Inr deps"
    using assms(2) p packages_loop_total [of "entries (the p)" deps1] by (auto simp: lock_nodes_def)
  then show ?thesis using d p l by (simp add: parse_lockData_def)
qed

lemma fold_record_other:
  "name \<notin> fst ` set ns \<Longrightarrow> map_of (fold record_node ns deps) name = map_of deps name"
  by (induction ns arbitrary: deps) (auto simp: record_node_def update_conv')

lemma fold_record_last:
  assumes "ns = earlier @ (name, info) # later" "name \<notin> fst ` set later"
  shows "map_of (fold record_node ns deps) name = Some (or_unknown (version_of info))"
  using assms by (simp add: fold_record_other record_node_def update_conv')

lemma record_node_keys: "fst ` set (record_node node deps) = insert (fst node) (fst ` set deps)"
proof -
  have "set (map fst (record_node node deps)) = insert (fst node) (set (map fst deps))"
    unfolding record_node_def update_keys by auto
  then show ?thesis by simp
qed

lemma fold_record_keys: "fst ` set (fold record_node ns deps) = fst ` set ns \<union> fst ` set deps"
  by (induction ns arbitrary: deps) (auto simp: record_node_keys)

lemma or_unknown_absent: "\<not> truthy v \<Longrightarrow> or_unknown v = JStr ''unknown''"
  by (simp add: or_unknown_def)

text \<open>
  C9. A node of a lock file (a node of the legacy \<open>dependencies\<close> tree at any depth, or a
  package entry of the flat \<open>packages\<close> map) that has no version is recorded with the
  version \<open>unknown\<close>: its name is a key of the dependency set, the write it causes is
  \<open>name \<mapsto> unknown\<close>, and that is the final value unless a later node of the same name
  overwrites it. The parser is the fold of these writes over the nodes, and it does not
  fail on a lock file whose nodes are not \<open>null\<close>: an absent version is never an error.
\<close>

theorem absent_version_recorded_unknown:
  "(parse_lockData lockData = Inr deps \<and> (name, info) \<in> set (lock_nodes lockData)
      \<and> get (Some info) ''version'' = Inr None
    \<longrightarrow> name \<in> fst ` set deps
       \<and> record_node (name, info) ds = AList.update name (JStr ''unknown'') ds
       \<and> (\<forall>earlier later. lock_nodes lockData = earlier @ (name, info) # later \<and> name \<notin> fst ` set later
            \<longrightarrow> map_of deps name = Some (JStr ''unknown'')))
   \<and> (parse_lockData lockData = Inr deps \<longrightarrow> deps = fold record_node (lock_nodes lockData) [])
   \<and> (lockData \<noteq> JNull \<and> (\<forall>node \<in> set (lock_nodes lockData). snd node \<noteq> JNull)
        \<longrightarrow> (\<exists>deps. parse_lockData lockData = Inr deps))"
proof (intro conjI impI allI)
  assume a: "parse_lockData lockData = Inr deps \<and> (name, info) \<in> set (lock_nodes lockData)
      \<and> get (Some info) ''version'' = Inr None"
  then have f: "deps = fold record_node (lock_nodes lockData) []" by (simp add: parse_lockData_fold)
  have "name \<in> fst ` set (lock_nodes lockData)" using a by force
  then show "name \<in> fst ` set deps" using f by (simp add: fold_record_keys)
  have u: "or_unknown (version_of info) = JStr ''unknown''"
    using a by (simp add: get_version_of or_unknown_absent)
  then show "record_node (name, info) ds = AList.update name (JStr ''unknown'') ds"
    by (simp add: record_node_def)
  fix earlier later
  assume "lock_nodes lockData = earlier @ (name, info) # later \<and> name \<notin> fst ` set later"
  then show "map_of deps name = Some (JStr ''unknown'')"
    using f u fold_record_last [of "lock_nodes lockData" earlier name info later "[]"] by simp
next
  assume "parse_lockData lockData = Inr deps"
  then show "deps = fold record_node (lock_nodes lockData) []" by (rule parse_lockData_fold)
next
  assume "lockData \<noteq> JNull \<and> (\<forall>node \<in> set (lock_nodes lockData). snd node \<noteq> JNull)"
  then show "\<exists>deps. parse_lockData lockData = Inr deps" using parse_lockData_total by blast
qed

theorem absent_version_recorded_unknown_witness:
  "parse_lockData sample_lock
     = Inr [(''a'', JStr ''1.0.0''), (''b'', JStr ''unknown''), (''c'', JStr ''unknown'')]
   \<and> lock_nodes sample_lock
     = [(''a'', JObj [(''version'', JStr ''1.0.0''), (''dependencies'', JObj [(''b'', JObj [])])]),
        (''b'', JObj []), (''c'', JObj [(''resolved'', JStr ''x'')])]
   \<and> get (Some (JObj [(''resolved'', JStr ''x'')])) ''version'' = Inr None
   \<and> map_of [(''a'', JStr ''1.0.0''), (''b'', JStr ''unknown''), (''c'', JStr ''unknown'')] ''c''
     = Some (JStr ''unknown'')
   \<and> ''c'' \<in> fst ` set [(''a'', JStr ''1.0.0''), (''b'', JStr ''unknown''), (''c'', JStr ''unknown'')]"
proof -
  have p: "parse_lockData sample_lock
     = Inr [(''a'', JStr ''1.0.0''), (''b'', JStr ''unknown''), (''c'', JStr ''unknown'')]"
    by code_simp
  have n: "lock_nodes sample_lock
     = [(''a'', JObj [(''version'', JStr ''1.0.0''), (''dependencies'', JObj [(''b'', JObj [])])]),
        (''b'', JObj []), (''c'', JObj [(''resolved'', JStr ''x'')])]"
    by code_simp
  have g: "get (Some (JObj [(''resolved'', JStr ''x'')])) ''version'' = Inr None" by simp
  have m: "(''c'', JObj [(''resolved'', JStr ''x'')]) \<in> set (lock_nodes sample_lock)"
    using n by simp
  from absent_version_recorded_unknown [of sample_lock
        "[(''a'', JStr ''1.0.0''), (''b'', JStr ''unknown''), (''c'', JStr ''unknown'')]"
        "''c''" "JObj [(''resolved'', JStr ''x'')]" "[]"] p m g
  have "''c'' \<in> fst ` set [(''a'', JStr ''1.0.0''), (''b'', JStr ''unknown''), (''c'', JStr ''unknown'')]"
    by blast
  with p n g show ?thesis by simp
qed

subsection \<open>Batching\<close>
























subsection \<open>Errors that leave the run\<close>

lemma get_error: "get v k = Inl err \<Longrightarrow> err = TypeError"
  by (cases "(v, k)" rule: get.cases) simp_all

lemma iterate_error: "iterate v = Inl err \<Longrightarrow> err = TypeError"
  by (cases v) simp_all

lemma post_error: "post e sent batch = Inl err \<Longrightarrow> err = NetworkError \<or> err = SyntaxError"
  by (auto simp: post_def split: reply.splits option.splits)

lemma spread_results_error: "spread_results result = Inl err \<Longrightarrow> err = TypeError"
  by (cases "get (Some result) ''results''")
     (auto simp: spread_results_def dest: get_error iterate_error split: if_splits)

lemma isMalicious_error: "isMalicious vuln = Inl err \<Longrightarrow> err = TypeError"
  by (cases vuln)
     (auto simp: isMalicious_def mentions_malicious_def bindE_def
           split: option.splits json.splits if_splits sum.splits)

lemma gt0_error: "gt0 e v = Inl err \<Longrightarrow> err = TypeError"
  by (cases "(e, v)" rule: gt0.cases) (auto split: option.splits)

lemma length_gt0_error: "length_gt0 e v = Inl err \<Longrightarrow> err = TypeError"
  by (cases "(e, v)" rule: length_gt0.cases) (auto dest: gt0_error)

lemma vulns_loop_error:
  "vulns_loop deps pkg vulns acc = Inl err \<Longrightarrow> err = TypeError"
proof (induction vulns arbitrary: acc)
  case Nil
  then show ?case by simp
next
  case (Cons vuln rest)
  then show ?case
    by (auto split: sum.splits if_splits dest: isMalicious_error get_error)
qed

lemma results_loop_error:
  "results_loop e deps i rs acc = Inl err \<Longrightarrow> err = TypeError"
proof (induction rs arbitrary: i acc)
  case Nil
  then show ?case by simp
next
  case (Cons r rest)
  then show ?case
    by (auto split: sum.splits if_splits
             dest: get_error length_gt0_error iterate_error vulns_loop_error)
qed

subsection \<open>What one manifest does to the state\<close>

lemma generateLockFile_keeps:
  assumes "generateLockFile e p st = (r, st')"
  shows "requests st' = requests st \<and> hasVulnerabilities st' = hasVulnerabilities st
         \<and> allFindings st' = allFindings st \<and> tempLockFiles st' = tempLockFiles st"
  using assms
  by (auto simp: generateLockFile_def Let_def split: if_splits prod.splits exit_status.splits)

lemma resolve_lock_keeps:
  assumes "resolve_lock e p st = (r, st')"
  shows "requests st' = requests st \<and> hasVulnerabilities st' = hasVulnerabilities st
         \<and> allFindings st' = allFindings st"
proof (cases "existsSync (disk st) (join (dirname p) ''package-lock.json'')
              \<or> existsSync (disk st) (join (dirname p) ''yarn.lock'')")
  case True
  then show ?thesis using assms resolve_lock_existing [OF True, of e] by simp
next
  case False
  obtain g st1 where g: "generateLockFile e p st = (g, st1)" by (cases "generateLockFile e p st")
  from generateLockFile_keeps [OF g] show ?thesis
    using assms False g
    by (auto simp: resolve_lock_def Let_def split: option.splits if_splits)
qed




text \<open>The ways through the body of the loop over the manifests.\<close>

lemma process_manifest_cases:
  obtains
    (skipped) st1 where
      "process_manifest e p st = (None, st1)"
      "requests st1 = requests st" "hasVulnerabilities st1 = hasVulnerabilities st"
      "allFindings st1 = allFindings st"
  | (query_failed) lockFile st1 deps err st2 where
      "resolve_lock e p st = (Some lockFile, st1)"
      "queryOSV e deps st1 = (Inl err, st2)"
      "process_manifest e p st = (Some err, st2)"
  | (results_failed) lockFile st1 deps results st2 err where
      "resolve_lock e p st = (Some lockFile, st1)"
      "queryOSV e deps st1 = (Inr results, st2)"
      "results_loop e deps 0 results ([], hasVulnerabilities st2) = Inl err"
      "process_manifest e p st = (Some err, st2)"
  | (classified) lockFile st1 deps results st2 vs hv where
      "resolve_lock e p st = (Some lockFile, st1)"
      "queryOSV e deps st1 = (Inr results, st2)"
      "results_loop e deps 0 results ([], hasVulnerabilities st2) = Inr (vs, hv)"
      "process_manifest e p st
         = (None, st2\<lparr>hasVulnerabilities := hv,
                      allFindings := allFindings st2 @ map (\<lambda>v. v\<lparr>f_file := p\<rparr>) vs\<rparr>)"
proof -
  obtain r st1 where r: "resolve_lock e p st = (r, st1)" by (cases "resolve_lock e p st")
  note k = resolve_lock_keeps [OF r]
  show thesis
  proof (cases r)
    case None
    then show ?thesis using r k skipped by (simp add: process_manifest_def)
  next
    case (Some lockFile)
    show ?thesis
    proof (cases "parse_lock e (disk st1) lockFile")
      case (Inl err)
      then show ?thesis using r Some k skipped by (simp add: process_manifest_def)
    next
      case (Inr deps)
      show ?thesis
      proof (cases "deps = []")
        case True
        then show ?thesis using r Some Inr k skipped by (simp add: process_manifest_def)
      next
        case False
        obtain q st2 where q: "queryOSV e deps st1 = (q, st2)" by (cases "queryOSV e deps st1")
        show ?thesis
        proof (cases q)
          case (Inl err)
          then show ?thesis using r Some Inr False q query_failed
            by (simp add: process_manifest_def)
        next
          case res: (Inr results)
          show ?thesis
          proof (cases "results_loop e deps 0 results ([], hasVulnerabilities st2)")
            case (Inl err)
            then show ?thesis using r Some Inr False q res results_failed
              by (simp add: process_manifest_def)
          next
            case acc: (Inr acc)
            obtain vs hv where "acc = (vs, hv)" by (cases acc)
            then show ?thesis using r Some Inr False q res acc classified
              by (simp add: process_manifest_def)
          qed
        qed
      qed
    qed
  qed
qed





subsection \<open>Well-formed replies raise no TypeError\<close>








subsection \<open>A request that fails ends the run\<close>

lemma all_answered_snoc:
  "all_answered e (l @ [b]) \<longleftrightarrow> all_answered e l \<and> (\<exists>j. post e l b = Inr j)"
proof
  assume a: "all_answered e (l @ [b])"
  have "all_answered e l"
    unfolding all_answered_def
  proof (intro allI impI)
    fix k assume k: "k < length l"
    then have "\<exists>j. post e (take k (l @ [b])) ((l @ [b]) ! k) = Inr j"
      using a by (simp add: all_answered_def)
    then show "\<exists>j. post e (take k l) (l ! k) = Inr j" using k by (simp add: nth_append)
  qed
  moreover have "\<exists>j. post e l b = Inr j"
    using a unfolding all_answered_def by (auto dest: spec [of _ "length l"])
  ultimately show "all_answered e l \<and> (\<exists>j. post e l b = Inr j)" by blast
next
  assume a: "all_answered e l \<and> (\<exists>j. post e l b = Inr j)"
  show "all_answered e (l @ [b])"
    unfolding all_answered_def
  proof (intro allI impI)
    fix k assume "k < length (l @ [b])"
    then consider "k < length l" | "k = length l" by fastforce
    then show "\<exists>j. post e (take k (l @ [b])) ((l @ [b]) ! k) = Inr j"
    proof cases
      case 1
      then show ?thesis using a by (simp add: all_answered_def nth_append)
    next
      case 2
      then show ?thesis using a by simp
    qed
  qed
qed

lemma queryOSV_loop_answered:
  "all_answered e (requests st) \<Longrightarrow> queryOSV_loop e queries i results st = (r, st') \<Longrightarrow>
     (\<forall>out. r = Inr out \<longrightarrow> all_answered e (requests st'))
     \<and> (\<forall>err. r = Inl err \<longrightarrow>
            all_answered e (requests st') \<and> err = TypeError \<or> halted_by e err (requests st'))"
proof (induction e queries i results st rule: queryOSV_loop.induct)
  case (1 e queries i results st)
  note unfold = queryOSV_loop.simps [of e queries i results st]
  show ?case
  proof (cases "i < length queries")
    case False
    then show ?thesis using "1.prems" unfolding unfold by auto
  next
    case True
    define batch where "batch = slice queries i (i + batchSize)"
    define st1 where "st1 = st\<lparr>requests := requests st @ [batch]\<rparr>"
    show ?thesis
    proof (cases "post e (requests st) batch")
      case (Inl err)
      then have "r = Inl err" "requests st' = requests st @ [batch]"
        using "1.prems" True unfolding unfold by (auto simp: Let_def batch_def)
      moreover have "halted_by e err (requests st @ [batch])"
        unfolding halted_by_def using "1.prems"(1) Inl by blast
      ultimately show ?thesis by simp
    next
      case (Inr result)
      then have ok: "all_answered e (requests st1)"
        using "1.prems"(1) by (auto simp: st1_def all_answered_snoc)
      show ?thesis
      proof (cases "spread_results result")
        case (Inl err)
        then have "r = Inl err" "st' = st1"
          using "1.prems" True Inr unfolding unfold by (auto simp: Let_def batch_def st1_def)
        then show ?thesis using ok spread_results_error [OF Inl] by simp
      next
        case rs: (Inr rs)
        from "1.prems" True Inr rs have
          "queryOSV_loop e queries (i + batchSize) (results @ rs) st1 = (r, st')"
          unfolding unfold by (simp add: Let_def batch_def st1_def)
        from "1.IH" [OF True batch_def st1_def Inr rs ok this] show ?thesis .
      qed
    qed
  qed
qed

lemma process_manifest_answered:
  assumes "all_answered e (requests st)" "process_manifest e p st = (r, st')"
  shows "(r = None \<longrightarrow> all_answered e (requests st'))
       \<and> (\<forall>err. r = Some err \<longrightarrow>
              all_answered e (requests st') \<and> err = TypeError \<or> halted_by e err (requests st'))"
proof (cases e p st rule: process_manifest_cases)
  case (skipped st1)
  then show ?thesis using assms by auto
next
  case (query_failed lockFile st1 deps err2 st2)
  have "all_answered e (requests st1)"
    using assms(1) resolve_lock_keeps [OF query_failed(1)] by simp
  from queryOSV_loop_answered [OF this] query_failed(2)
  have "all_answered e (requests st2) \<and> err2 = TypeError \<or> halted_by e err2 (requests st2)"
    unfolding queryOSV_def by blast
  then show ?thesis using assms query_failed by auto
next
  case (results_failed lockFile st1 deps results st2 err2)
  have "all_answered e (requests st1)"
    using assms(1) resolve_lock_keeps [OF results_failed(1)] by simp
  from queryOSV_loop_answered [OF this] results_failed(2)
  have "all_answered e (requests st2)" unfolding queryOSV_def by blast
  then show ?thesis using assms results_failed results_loop_error [OF results_failed(3)] by auto
next
  case (classified lockFile st1 deps results st2 vs hv)
  have "all_answered e (requests st1)"
    using assms(1) resolve_lock_keeps [OF classified(1)] by simp
  from queryOSV_loop_answered [OF this] classified(2)
  have "all_answered e (requests st2)" unfolding queryOSV_def by blast
  then show ?thesis using assms classified by auto
qed

lemma manifests_loop_answered:
  "all_answered e (requests st) \<Longrightarrow> manifests_loop e ps st = (r, st') \<Longrightarrow>
     (r = None \<longrightarrow> all_answered e (requests st'))
     \<and> (\<forall>err. r = Some err \<longrightarrow>
            all_answered e (requests st') \<and> err = TypeError \<or> halted_by e err (requests st'))"
proof (induction ps arbitrary: st)
  case Nil
  then show ?case by simp
next
  case (Cons p ps)
  obtain r1 st1 where r1: "process_manifest e p st = (r1, st1)"
    by (cases "process_manifest e p st")
  note a = process_manifest_answered [OF Cons.prems(1) r1]
  show ?case
  proof (cases r1)
    case None
    then have "manifests_loop e ps st1 = (r, st')" using Cons.prems(2) r1 by simp
    moreover have "all_answered e (requests st1)" using a None by simp
    ultimately show ?thesis using Cons.IH by blast
  next
    case (Some x)
    then have "r = Some x" "st' = st1" using Cons.prems(2) r1 by simp_all
    then show ?thesis using a Some by simp
  qed
qed

lemma failed_request_halts:
  assumes "all_answered e sent \<and> err = TypeError \<or> halted_by e err sent"
      and "k < length sent" "post e (take k sent) (sent ! k) = Inl err'"
  shows "err' = err \<and> Suc k = length sent"
proof -
  from assms(2,3) have "\<not> all_answered e sent" by (auto simp: all_answered_def)
  with assms(1) obtain l b where s: "sent = l @ [b]" and l: "all_answered e l" and
    p: "post e l b = Inl err" by (auto simp: halted_by_def)
  have "\<not> k < length l"
  proof
    assume "k < length l"
    then have "post e (take k sent) (sent ! k) = post e (take k l) (l ! k)"
      using s by (simp add: nth_append)
    then show False using l \<open>k < length l\<close> assms(3) by (auto simp: all_answered_def)
  qed
  then have "k = length l" using assms(2) s by simp
  then show ?thesis using assms(3) p s by simp
qed


subsection \<open>The run\<close>

lemma main_cases:
  obtains
    (discovery_failed) err where
      "findPackageJsonFiles [] t [] = Inl err"
      "main e t = \<lparr>exit_code = 1, fatal = Some err, report = [], final = initial t\<rparr>"
  | (no_manifests)
      "findPackageJsonFiles [] t [] = Inr []"
      "main e t = \<lparr>exit_code = 0, fatal = None, report = [], final = initial t\<rparr>"
  | (aborted) files err st where
      "findPackageJsonFiles [] t [] = Inr files" "files \<noteq> []"
      "manifests_loop e files (initial t) = (Some err, st)"
      "main e t = \<lparr>exit_code = 1, fatal = Some err, report = [], final = st\<rparr>"
  | (completed) files st where
      "findPackageJsonFiles [] t [] = Inr files" "files \<noteq> []"
      "manifests_loop e files (initial t) = (None, st)"
      "main e t =
         \<lparr>exit_code = (if hasVulnerabilities st then 1 else 0), fatal = None,
          report = (if hasVulnerabilities st then allFindings st else []),
          final = st\<lparr>disk := cleanup (tempLockFiles st) (disk st)\<rparr>\<rparr>"
proof (cases "findPackageJsonFiles [] t []")
  case (Inl err)
  then show ?thesis using discovery_failed by (simp add: main_def)
next
  case (Inr files)
  show ?thesis
  proof (cases "files = []")
    case True
    then show ?thesis using Inr no_manifests by (simp add: main_def)
  next
    case False
    obtain r st where l: "manifests_loop e files (initial t) = (r, st)"
      by (cases "manifests_loop e files (initial t)")
    show ?thesis
    proof (cases r)
      case None
      then show ?thesis using Inr False l completed [of files st]
        by (simp add: main_def Let_def)
    next
      case (Some err)
      then show ?thesis using Inr False l aborted by (simp add: main_def)
    qed
  qed
qed

lemma initial_facts:
  "consistent (initial t)" "all_answered e (requests (initial t))"
  "requests (initial t) = []" "allFindings (initial t) = []"
  by (simp_all add: consistent_def initial_def all_answered_def)

lemma post_failure:
  "post e sent batch = Inl NetworkError \<longleftrightarrow> osv_respond e sent batch = NetFail"
  "post e sent batch = Inl SyntaxError \<longleftrightarrow>
     (\<exists>body. osv_respond e sent batch = Body body \<and> JSON_parse e body = None)"
  by (auto simp: post_def split: reply.splits option.splits)









text \<open>
  C4. A request of the run that meets a network error, or whose body \<open>JSON.parse\<close> rejects,
  is the last request of the run: the error leaves \<open>main\<close>, the process exits with code 1
  and no report of findings is made. The failure is never taken for an empty result.
\<close>

theorem failed_request_is_fatal:
  "(k < length (requests (final (main e t)))
    \<and> post e (take k (requests (final (main e t)))) (requests (final (main e t)) ! k) = Inl err
    \<longrightarrow> fatal (main e t) = Some err \<and> exit_code (main e t) = 1 \<and> report (main e t) = []
        \<and> Suc k = length (requests (final (main e t)))
        \<and> (err = NetworkError \<or> err = SyntaxError))
   \<and> (post e sent batch = Inl NetworkError \<longleftrightarrow> osv_respond e sent batch = NetFail)
   \<and> (post e sent batch = Inl SyntaxError \<longleftrightarrow>
        (\<exists>body. osv_respond e sent batch = Body body \<and> JSON_parse e body = None))"
proof (intro conjI impI)
  assume a: "k < length (requests (final (main e t)))
    \<and> post e (take k (requests (final (main e t)))) (requests (final (main e t)) ! k) = Inl err"
  then have kind: "err = NetworkError \<or> err = SyntaxError" using post_error by blast
  have "fatal (main e t) = Some err \<and> exit_code (main e t) = 1 \<and> report (main e t) = []
         \<and> Suc k = length (requests (final (main e t)))"
  proof (cases rule: main_cases [where t = t and e = e])
    case (discovery_failed err0)
    then show "fatal (main e t) = Some err \<and> exit_code (main e t) = 1 \<and> report (main e t) = []
         \<and> Suc k = length (requests (final (main e t)))"
      using a by (simp add: initial_facts)
  next
    case no_manifests
    then show "fatal (main e t) = Some err \<and> exit_code (main e t) = 1 \<and> report (main e t) = []
         \<and> Suc k = length (requests (final (main e t)))"
      using a by (simp add: initial_facts)
  next
    case (aborted files err0 st)
    have "all_answered e (requests st) \<and> err0 = TypeError \<or> halted_by e err0 (requests st)"
      using manifests_loop_answered [OF initial_facts(2) aborted(3)] by simp
    from failed_request_halts [OF this, of k err] a aborted(4)
    have "err = err0 \<and> Suc k = length (requests st)" by simp
    then show "fatal (main e t) = Some err \<and> exit_code (main e t) = 1 \<and> report (main e t) = []
         \<and> Suc k = length (requests (final (main e t)))"
      using aborted(4) by simp
  next
    case (completed files st)
    have "all_answered e (requests st)"
      using manifests_loop_answered [OF initial_facts(2) completed(3)] by simp
    then have False using a completed(4) by (auto simp: all_answered_def)
    then show "fatal (main e t) = Some err \<and> exit_code (main e t) = 1 \<and> report (main e t) = []
         \<and> Suc k = length (requests (final (main e t)))" ..
  qed
  then show "fatal (main e t) = Some err" "exit_code (main e t) = 1" "report (main e t) = []"
       "Suc k = length (requests (final (main e t)))" by simp_all
  show "err = NetworkError \<or> err = SyntaxError" by (rule kind)
qed (simp_all add: post_failure)




theorem failed_request_is_fatal_witness:
  "requests (final (main offline_env infected_project))
     = [[Query ''colors-update'' ''npm'' (JStr ''2.0.0'')]]
   \<and> post offline_env [] [Query ''colors-update'' ''npm'' (JStr ''2.0.0'')] = Inl NetworkError
   \<and> fatal (main offline_env infected_project) = Some NetworkError
   \<and> exit_code (main offline_env infected_project) = 1
   \<and> report (main offline_env infected_project) = []"
proof -
  have r: "requests (final (main offline_env infected_project))
             = [[Query ''colors-update'' ''npm'' (JStr ''2.0.0'')]]" by code_simp
  have p: "post offline_env [] [Query ''colors-update'' ''npm'' (JStr ''2.0.0'')] = Inl NetworkError"
    by (simp add: post_def offline_env_def scan_env_def)
  from failed_request_is_fatal [of 0 offline_env infected_project NetworkError] r p
  have "fatal (main offline_env infected_project) = Some NetworkError
        \<and> exit_code (main offline_env infected_project) = 1
        \<and> report (main offline_env infected_project) = []"
    by simp
  then show ?thesis using r p by simp
qed

subsection \<open>What the resolver lists for cleanup\<close>

lemma replace_lock_ext_package_lock:
  "replace_lock_ext (join dir ''package-lock.json'') = join dir ''package-lock.json''"
  by (simp add: replace_lock_ext_def replace_ext_def endsWith_def join_def)

lemma generateLockFile_result:
  assumes "\<not> existsSync (disk st) (join (dirname p) ''package-lock.json'')"
      and "\<not> existsSync (disk st) (join (dirname p) ''yarn.lock'')"
      and "generateLockFile e p st = (Some lockFile, st')"
  shows "existsSync (disk st') lockFile
       \<and> (lockFile = join (dirname p) ''package-lock.json''
          \<or> lockFile = join (dirname p) ''yarn.lock'')"
  using assms
  by (auto simp: generateLockFile_def Let_def split: prod.splits exit_status.splits if_splits)

text \<open>
  A package-lock.json that the run synthesized is never listed for cleanup, in any run; a
  lock file that is listed is a yarn.lock that was not there before the resolver ran and
  is there after it.
\<close>

lemma package_lock_never_listed:
  assumes "resolve_lock e p st = (Some (join (dirname p) ''package-lock.json''), st')"
  shows "tempLockFiles st' = tempLockFiles st"
proof (cases "existsSync (disk st) (join (dirname p) ''package-lock.json'')
              \<or> existsSync (disk st) (join (dirname p) ''yarn.lock'')")
  case True
  then show ?thesis using assms resolve_lock_existing [OF True, of e] by simp
next
  case False
  obtain g st1 where g: "generateLockFile e p st = (g, st1)" by (cases "generateLockFile e p st")
  from assms False g have s: "g = Some (join (dirname p) ''package-lock.json'')"
    by (auto simp: resolve_lock_def Let_def split: option.splits if_splits)
  from False g s have "existsSync (disk st1) (join (dirname p) ''package-lock.json'')"
    using generateLockFile_result [of st p e "join (dirname p) ''package-lock.json''" st1] by simp
  then have "st' = st1"
    using assms False g s
    by (simp add: resolve_lock_def Let_def replace_lock_ext_package_lock)
  then show ?thesis using generateLockFile_keeps [OF g] by simp
qed

lemma listed_lock_was_synthesized:
  assumes "resolve_lock e p st = (r, st')"
  shows "tempLockFiles st' = tempLockFiles st
       \<or> (tempLockFiles st' = tempLockFiles st @ [join (dirname p) ''yarn.lock'']
          \<and> r = Some (join (dirname p) ''yarn.lock'')
          \<and> \<not> existsSync (disk st) (join (dirname p) ''yarn.lock'')
          \<and> existsSync (disk st') (join (dirname p) ''yarn.lock''))"
proof (cases "existsSync (disk st) (join (dirname p) ''package-lock.json'')
              \<or> existsSync (disk st) (join (dirname p) ''yarn.lock'')")
  case True
  then show ?thesis using assms resolve_lock_existing [OF True, of e] by simp
next
  case False
  obtain g st1 where g: "generateLockFile e p st = (g, st1)" by (cases "generateLockFile e p st")
  note k = generateLockFile_keeps [OF g]
  show ?thesis
  proof (cases g)
    case None
    then show ?thesis using assms False g k by (simp add: resolve_lock_def Let_def)
  next
    case (Some lockFile)
    from generateLockFile_result [of st p e lockFile st1] False g Some
    have ex: "existsSync (disk st1) lockFile" and
      w: "lockFile = join (dirname p) ''package-lock.json'' \<or> lockFile = join (dirname p) ''yarn.lock''"
      by simp_all
    from w show ?thesis
    proof
      assume "lockFile = join (dirname p) ''package-lock.json''"
      then show ?thesis using assms False g Some ex k
        by (simp add: resolve_lock_def Let_def replace_lock_ext_package_lock)
    next
      assume y: "lockFile = join (dirname p) ''yarn.lock''"
      then show ?thesis using assms False g Some ex k
        by (auto simp: resolve_lock_def Let_def split: if_splits)
    qed
  qed
qed

text \<open>
  C1 fails on the code. A run that synthesizes package-lock.json with npm does not list
  it for cleanup: the test \<open>!fs.existsSync(lockFile.replace(/\.(json|lock)$/, '.json'))\<close>
  asks whether the file just created exists, so the file is still on disk when the run
  ends. A run that synthesizes yarn.lock lists it and removes it.
\<close>

theorem synthesized_package_lock_left_behind:
  "existsSync bare_project [''package-lock.json''] = False
   \<and> spawned (final (main npm_env bare_project)) = [(''npm'', [])]
   \<and> fatal (main npm_env bare_project) = None
   \<and> tempLockFiles (final (main npm_env bare_project)) = []
   \<and> existsSync (disk (final (main npm_env bare_project))) [''package-lock.json''] = True
   \<and> replace_lock_ext [''package-lock.json''] = [''package-lock.json'']
   \<and> spawned (final (main failing_npm_env bare_project)) = [(''npm'', []), (''yarn'', [])]
   \<and> tempLockFiles (final (main failing_npm_env bare_project)) = [[''yarn.lock'']]
   \<and> existsSync (disk (final (main failing_npm_env bare_project))) [''yarn.lock''] = False"
  by code_simp

end
